theory Spec2Isabelle
  imports Main "HOL-Library.AList"
begin

section \<open>The Invidious provider of mediaquery (src/provider/invidious.js)\<close>

text \<open>
  A shallow embedding of \<^verbatim>\<open>src/provider/invidious.js\<close>. The module keeps three
  variables (\<^verbatim>\<open>INSTANCE\<close>, \<^verbatim>\<open>USER_AGENT\<close>, \<^verbatim>\<open>CACHE\<close>) and talks to two collaborators:
  the HTTP transport \<^verbatim>\<open>request\<close> and the optional metadata cache. Both collaborators
  are modelled as explicit state that is passed in and returned: the transport as a
  reply function together with the log of the requests it was sent, the cache as its
  replies together with the log of the calls it received. Exceptions are values of the
  type \<open>iv_error\<close>; a function that can throw returns \<open>iv_error + 'a\<close>. The pagination
  loop of \<^verbatim>\<open>lookupPlaylist\<close> has no bound on the number of pages, so it is a
  \<^theory_text>\<open>partial_function\<close> in the option monad: \<open>None\<close> is a run that never returns.

  What is taken as given: a body that parses has the fields the code reads, at the types
  of the data model (ids and titles are strings, \<^verbatim>\<open>videoCount\<close> and \<^verbatim>\<open>lengthSeconds\<close> are
  integers, \<^verbatim>\<open>lengthSeconds\<close> and \<^verbatim>\<open>error\<close> may be absent); \<^verbatim>\<open>INSTANCE\<close>, when set, is a
  base URL that \<^verbatim>\<open>new URL\<close> accepts, and it is represented by its origin. Within one
  call every URL is requested at most once, so the transport's reply is a function of
  the request. Output of \<^verbatim>\<open>LOGGER\<close> is not modelled.
\<close>

subsection \<open>JavaScript values\<close>

text \<open>
  A plain object used as a dictionary, as \<^verbatim>\<open>resultsMap = {}\<close> is: its own properties in
  creation order. Assigning to an existing key keeps the key's position. The key
  \<^verbatim>\<open>__proto__\<close> is special: on an object created by \<^verbatim>\<open>{}\<close> the assignment
  \<^verbatim>\<open>obj['__proto__'] = v\<close> runs the accessor inherited from \<^verbatim>\<open>Object.prototype\<close>, which
  replaces the prototype and creates no own property. \<^verbatim>\<open>Object.keys\<close> lists the keys that
  are array indices first, in ascending numeric order, then the other keys in creation
  order.
\<close>

type_synonym 'v js_object = "(string \<times> 'v) list"

definition js_set :: "'v js_object \<Rightarrow> string \<Rightarrow> 'v \<Rightarrow> 'v js_object" where
  "js_set obj key v = (if key = ''__proto__'' then obj else AList.update key v obj)"

definition js_get :: "'v js_object \<Rightarrow> string \<Rightarrow> 'v option" where
  "js_get obj key = map_of obj key"

definition is_digit :: "char \<Rightarrow> bool" where
  "is_digit c \<longleftrightarrow> (48::nat) \<le> of_char c \<and> (of_char c :: nat) \<le> 57"

definition index_value :: "string \<Rightarrow> nat" where
  "index_value key = foldl (\<lambda>n c. 10 * n + (of_char c - 48)) 0 key"

definition is_array_index :: "string \<Rightarrow> bool" where
  "is_array_index key =
     (case key of
        [] \<Rightarrow> False
      | c # cs \<Rightarrow>
          list_all is_digit key \<and> (if c = CHR ''0'' then cs = [] else True) \<and>
          index_value key < 2 ^ 32 - 1)"

definition Object_keys :: "'v js_object \<Rightarrow> string list" where
  "Object_keys obj =
     sort_key index_value (filter is_array_index (map fst obj)) @
     filter (\<lambda>key. \<not> is_array_index key) (map fst obj)"

text \<open>
  Truthiness of an optional string (\<^verbatim>\<open>null\<close>, \<^verbatim>\<open>undefined\<close> and \<^verbatim>\<open>''\<close> are falsy): the
  string when it is truthy. Truthiness of an optional number: absent and \<^verbatim>\<open>0\<close> are falsy.
\<close>

definition truthy_string :: "string option \<Rightarrow> string option" where
  "truthy_string s = (case s of None \<Rightarrow> None | Some t \<Rightarrow> if t = [] then None else Some t)"

definition truthy_number :: "int option \<Rightarrow> bool" where
  "truthy_number x = (case x of None \<Rightarrow> False | Some i \<Rightarrow> i \<noteq> 0)"

subsection \<open>Data\<close>

record thumbnail =
  width :: int
  url :: string

text \<open>
  An item of the API (\<^verbatim>\<open>video\<close> in the source). \<open>lengthSeconds\<close> and \<open>error\<close> may be
  absent. An absent field, \<^verbatim>\<open>0\<close> and the empty string are falsy.
\<close>

record video =
  videoId :: string
  title :: string
  lengthSeconds :: "int option"
  videoThumbnails :: "thumbnail list"
  error :: "string option"

text \<open>The body of a playlist page: \<^verbatim>\<open>res.videoCount\<close> and \<^verbatim>\<open>res.videos\<close>.\<close>

record playlist =
  videoCount :: int
  videos :: "video list"

text \<open>
  The argument of \<^verbatim>\<open>new Media(data)\<close>. The class \<^verbatim>\<open>Media\<close> lives in \<^verbatim>\<open>src/media\<close>; here a
  media object is the data it is constructed from.
\<close>

record media =
  media_id :: string
  media_type :: string
  media_title :: string
  media_duration :: "int option"
  media_meta_thumbnail :: string

datatype param = Str string | Num nat

text \<open>
  A request URL: \<open>origin\<close> is the configured instance, \<open>path\<close> the first argument of
  \<^verbatim>\<open>new URL(path, INSTANCE)\<close> and \<open>search\<close> the object given to \<^verbatim>\<open>URLSearchParams\<close>.
\<close>

record api_url =
  origin :: string
  path :: string
  search :: "(string \<times> param) list"

type_synonym headers = "(string \<times> string) list"

record response =
  statusCode :: int
  data :: string

text \<open>
  The transport: \<open>respond\<close> is what \<^verbatim>\<open>request(url, { headers })\<close> resolves to (\<open>Inl\<close> when
  the promise is rejected), \<open>sent\<close> the requests issued so far, oldest first.
\<close>

record net =
  respond :: "api_url \<Rightarrow> headers \<Rightarrow> string + response"
  sent :: "(api_url \<times> headers) list"

text \<open>
  A value that the cache throws (the value its promise is rejected with). The handlers of
  \<^verbatim>\<open>lookup\<close> read \<^verbatim>\<open>error.stack\<close> of it: of \<^verbatim>\<open>null\<close> and \<^verbatim>\<open>undefined\<close> (\<open>Nullish\<close>) this read
  is itself a \<^verbatim>\<open>TypeError\<close>; of any other value (\<open>Thrown\<close>, with the text of its stack) it
  is not.
\<close>

datatype thrown = Nullish | Thrown string

text \<open>
  The cache: \<open>get_reply\<close> and \<open>put_reply\<close> are what \<^verbatim>\<open>CACHE.get(id, ns)\<close> and
  \<^verbatim>\<open>CACHE.put(media)\<close> do (\<open>Inl\<close> and \<open>Some\<close> are a thrown value), \<open>gets\<close> and \<open>puts\<close> the
  calls received so far.
\<close>

record cache =
  get_reply :: "string \<Rightarrow> string \<Rightarrow> thrown + media option"
  put_reply :: "media \<Rightarrow> thrown option"
  gets :: "(string \<times> string) list"
  puts :: "media list"

record config =
  INSTANCE :: "string option"
  USER_AGENT :: "string option"

text \<open>
  The errors the module throws, named as the specification names them; \<open>message\<close> is
  the text of the \<^verbatim>\<open>Error\<close> in the source.
\<close>

datatype iv_error =
    NotConfigured
  | RateLimited string
  | NotFound
  | Forbidden
  | UpstreamError string int
  | MalformedResponse string
  | PlaylistTooLong
  | InvalidItem string
  | TransportFailure string
  | TypeError string

definition PLAYLIST_ITEM_LIMIT :: nat where
  "PLAYLIST_ITEM_LIMIT = 2000"

fun show_nat :: "nat \<Rightarrow> string" where
  "show_nat n =
     (if n < 10 then [char_of (48 + n)] else show_nat (n div 10) @ [char_of (48 + n mod 10)])"

definition show_int :: "int \<Rightarrow> string" where
  "show_int i = (if i < 0 then CHR ''-'' # show_nat (nat (- i)) else show_nat (nat i))"

fun message :: "iv_error \<Rightarrow> string" where
  "message NotConfigured = ''Instance is not set for Invidious''"
| "message (RateLimited orig) =
     ''Error calling Invidious API (instance: '' @ orig @
     ''). Try again later or set different instance.''"
| "message NotFound = ''Video or playlist with this id is unavailable.''"
| "message Forbidden = ''Video or playlist with this id is private.''"
| "message (UpstreamError orig code) =
     ''Error calling Invidious API (instance: '' @ orig @ ''): HTTP '' @ show_int code"
| "message (MalformedResponse orig) =
     ''Error calling Invidious API (instance: '' @ orig @
     ''): could not decode response as JSON''"
| "message PlaylistTooLong =
     ''YouTube Playlist is too long to queue (limit '' @ show_nat PLAYLIST_ITEM_LIMIT @ '').''"
| "message (InvalidItem text) = text"
| "message (TransportFailure text) = text"
| "message (TypeError text) = text"

subsection \<open>ivRequest\<close>

text \<open>
  \<^verbatim>\<open>ivRequest(url, headers = {})\<close>: sets the user agent, sends the request, maps the
  status code and parses the body. \<open>parse\<close> is \<^verbatim>\<open>JSON.parse\<close> followed by the reading of
  the value at the type the caller uses; \<open>None\<close> is its \<^verbatim>\<open>SyntaxError\<close>.
\<close>

definition ivRequest_headers :: "config \<Rightarrow> headers option \<Rightarrow> headers" where
  "ivRequest_headers cfg headers =
     (let hs = (case headers of None \<Rightarrow> [] | Some h \<Rightarrow> h)
      in case truthy_string (USER_AGENT cfg) of
           None \<Rightarrow> hs
         | Some ua \<Rightarrow> AList.update ''User-Agent'' ua hs)"

definition ivRequest ::
  "config \<Rightarrow> (string \<Rightarrow> 'a option) \<Rightarrow> api_url \<Rightarrow> headers option \<Rightarrow> net \<Rightarrow> (iv_error + 'a) \<times> net"
where
  "ivRequest cfg parse u headers n =
     (let hs = ivRequest_headers cfg headers;
          n' = n\<lparr>sent := sent n @ [(u, hs)]\<rparr>
      in case respond n u hs of
           Inl failure \<Rightarrow> (Inl (TransportFailure failure), n')
         | Inr res \<Rightarrow>
             if statusCode res = 429 then (Inl (RateLimited (origin u)), n')
             else if statusCode res = 404 then (Inl NotFound, n')
             else if statusCode res = 500 then (Inl Forbidden, n')
             else if statusCode res \<noteq> 200 then (Inl (UpstreamError (origin u) (statusCode res)), n')
             else (case parse (data res) of
                     None \<Rightarrow> (Inl (MalformedResponse (origin u)), n')
                   | Some v \<Rightarrow> (Inr v, n')))"

subsection \<open>videoToMedia\<close>

text \<open>
  The \<^verbatim>\<open>forEach\<close> of \<^verbatim>\<open>videoToMedia\<close>: the index of the first thumbnail of the largest
  width above 0, and 0 when no width is above 0.
\<close>

definition maxWidthI :: "thumbnail list \<Rightarrow> nat" where
  "maxWidthI ts =
     snd (foldl (\<lambda>(maxWidth, maxWidthI) (i, t).
                   if width t > maxWidth then (width t, i) else (maxWidth, maxWidthI))
                (0, 0) (enumerate 0 ts))"

text \<open>Lines 96 to 113: the data of the media object, with the thumbnail chosen.\<close>

definition media_of :: "video \<Rightarrow> media" where
  "media_of v =
     \<lparr>media_id = videoId v, media_type = ''invidious'', media_title = title v,
      media_duration = lengthSeconds v,
      media_meta_thumbnail =
        (if videoThumbnails v \<noteq> []
         then url (videoThumbnails v ! maxWidthI (videoThumbnails v))
         else ''https://img.youtube.com/vi/'' @ videoId v @ ''/0.jpg'')\<rparr>"

definition videoToMedia :: "video option \<Rightarrow> iv_error + media" where
  "videoToMedia video =
     (case video of
        None \<Rightarrow> Inl (InvalidItem ''Video is null'')
      | Some v \<Rightarrow>
          (case truthy_string (error v) of
             Some e \<Rightarrow> Inl (InvalidItem (''Video contains error: '' @ e))
           | None \<Rightarrow> Inr (media_of v)))"

subsection \<open>lookup\<close>

definition CACHE_get :: "cache \<Rightarrow> string \<Rightarrow> string \<Rightarrow> (thrown + media option) \<times> cache" where
  "CACHE_get c ident ns = (get_reply c ident ns, c\<lparr>gets := gets c @ [(ident, ns)]\<rparr>)"

definition CACHE_put :: "cache \<Rightarrow> media \<Rightarrow> thrown option \<times> cache" where
  "CACHE_put c m = (put_reply c m, c\<lparr>puts := puts c @ [m]\<rparr>)"

definition video_url :: "string \<Rightarrow> string \<Rightarrow> api_url" where
  "video_url inst ident =
     \<lparr>origin = inst, path = ''/api/v1/videos/'' @ ident,
      search = [(''fields'', Str ''videoId,title,lengthSeconds,videoThumbnails,error'')]\<rparr>"

text \<open>
  \<^verbatim>\<open>_lookupInternal(id, cached)\<close>. The parsed body of a video request may be \<^verbatim>\<open>null\<close>,
  which is \<open>None\<close> of \<open>video option\<close>.
\<close>

definition lookupInternal ::
  "config \<Rightarrow> (string \<Rightarrow> video option option) \<Rightarrow> string \<Rightarrow> media option \<Rightarrow> net \<Rightarrow>
     (iv_error + media) \<times> net"
where
  "lookupInternal cfg parse ident cached n =
     (case cached of
        Some m \<Rightarrow> (Inr m, n)
      | None \<Rightarrow>
          (case truthy_string (INSTANCE cfg) of
             None \<Rightarrow> (Inl NotConfigured, n)
           | Some inst \<Rightarrow>
               (case ivRequest cfg parse (video_url inst ident) None n of
                  (Inl e, n') \<Rightarrow> (Inl e, n')
                | (Inr res, n') \<Rightarrow> (videoToMedia res, n'))))"

text \<open>
  The \<^verbatim>\<open>catch\<close> blocks of \<^verbatim>\<open>lookup\<close>, lines 21 to 23 and 30 to 32: the argument of
  \<^verbatim>\<open>LOGGER.error\<close> reads \<^verbatim>\<open>error.stack\<close>, which throws when the caught value is \<^verbatim>\<open>null\<close> or
  \<^verbatim>\<open>undefined\<close>. \<open>None\<close> is a handler that returns.
\<close>

definition cache_error_handler :: "thrown \<Rightarrow> iv_error option" where
  "cache_error_handler caught =
     (case caught of
        Nullish \<Rightarrow> Some (TypeError ''Cannot read properties of undefined (reading stack)'')
      | Thrown stack \<Rightarrow> None)"

text \<open>
  \<^verbatim>\<open>lookup(id)\<close>. A value thrown by \<^verbatim>\<open>CACHE.get\<close> or \<^verbatim>\<open>CACHE.put\<close> is caught and handed to
  the handler; an error of the handler or of \<^verbatim>\<open>_lookupInternal\<close> leaves the function at
  once, in the second case before \<^verbatim>\<open>CACHE.put\<close>.
\<close>

definition lookup ::
  "config \<Rightarrow> (string \<Rightarrow> video option option) \<Rightarrow> string \<Rightarrow> cache option \<Rightarrow> net \<Rightarrow>
     (iv_error + media) \<times> cache option \<times> net"
where
  "lookup cfg parse ident CACHE n =
     (case (case CACHE of
              None \<Rightarrow> Inr (None, None)
            | Some c \<Rightarrow>
                (case CACHE_get c ident ''iv'' of
                   (Inl caught, c') \<Rightarrow>
                     (case cache_error_handler caught of
                        Some e \<Rightarrow> Inl (e, Some c')
                      | None \<Rightarrow> Inr (None, Some c'))
                 | (Inr found, c') \<Rightarrow> Inr (found, Some c')))
      of
        Inl (e, CACHE1) \<Rightarrow> (Inl e, CACHE1, n)
      | Inr (cached, CACHE1) \<Rightarrow>
          (case lookupInternal cfg parse ident cached n of
             (Inl e, n') \<Rightarrow> (Inl e, CACHE1, n')
           | (Inr m, n') \<Rightarrow>
               (case CACHE1 of
                  None \<Rightarrow> (Inr m, None, n')
                | Some c \<Rightarrow>
                    (case CACHE_put c m of
                       (None, c') \<Rightarrow> (Inr m, Some c', n')
                     | (Some caught, c') \<Rightarrow>
                         (case cache_error_handler caught of
                            Some e \<Rightarrow> (Inl e, Some c', n')
                          | None \<Rightarrow> (Inr m, Some c', n'))))))"

subsection \<open>lookupPlaylist\<close>

definition playlist_url :: "string \<Rightarrow> string \<Rightarrow> nat \<Rightarrow> api_url" where
  "playlist_url inst ident page =
     \<lparr>origin = inst, path = ''/api/v1/playlists/'' @ ident, search = [(''page'', Num page)]\<rparr>"

text \<open>\<^verbatim>\<open>res.videos.forEach(video => resultsMap[video.videoId] = video)\<close>\<close>

definition merge_videos :: "video js_object \<Rightarrow> video list \<Rightarrow> video js_object" where
  "merge_videos resultsMap vs = foldl (\<lambda>obj v. js_set obj (videoId v) v) resultsMap vs"

text \<open>The variables of \<^verbatim>\<open>lookupPlaylist\<close> that the loop reads and writes.\<close>

record loop_state =
  res :: playlist
  resultsMap :: "video js_object"
  resultsLength :: nat
  page :: nat

text \<open>The condition of the \<^verbatim>\<open>while\<close> loop, line 171.\<close>

definition loop_condition :: "loop_state \<Rightarrow> bool" where
  "loop_condition st \<longleftrightarrow>
     videos (res st) \<noteq> [] \<and> resultsLength st < PLAYLIST_ITEM_LIMIT \<and>
     int (resultsLength st) \<noteq> videoCount (res st)"

text \<open>The \<^verbatim>\<open>while\<close> loop, lines 171 to 178. An error of \<^verbatim>\<open>ivRequest\<close> leaves the loop.\<close>

partial_function (option) lookupPlaylist_loop ::
  "config \<Rightarrow> (string \<Rightarrow> playlist option) \<Rightarrow> string \<Rightarrow> string \<Rightarrow> loop_state \<Rightarrow> net \<Rightarrow>
     ((iv_error + loop_state) \<times> net) option"
where
  "lookupPlaylist_loop cfg parse inst ident st n =
     (if loop_condition st
      then
        (case ivRequest cfg parse (playlist_url inst ident (page st + 1)) None n of
           (Inl e, n') \<Rightarrow> Some (Inl e, n')
         | (Inr res', n') \<Rightarrow>
             lookupPlaylist_loop cfg parse inst ident
               \<lparr>res = res',
                resultsMap = merge_videos (resultsMap st) (videos res'),
                resultsLength = length (Object_keys (merge_videos (resultsMap st) (videos res'))),
                page = page st + 1\<rparr> n')
      else Some (Inr st, n))"

text \<open>
  Lines 153 to 178: the first page, the check of its \<^verbatim>\<open>videoCount\<close>, and the loop. The
  result is the state of the variables when the loop is left.
\<close>

definition lookupPlaylist_collect ::
  "config \<Rightarrow> (string \<Rightarrow> playlist option) \<Rightarrow> string \<Rightarrow> net \<Rightarrow>
     ((iv_error + loop_state) \<times> net) option"
where
  "lookupPlaylist_collect cfg parse ident n =
     (case truthy_string (INSTANCE cfg) of
        None \<Rightarrow> Some (Inl NotConfigured, n)
      | Some inst \<Rightarrow>
          (case ivRequest cfg parse (playlist_url inst ident 1) None n of
             (Inl e, n') \<Rightarrow> Some (Inl e, n')
           | (Inr res1, n') \<Rightarrow>
               if videoCount res1 > int PLAYLIST_ITEM_LIMIT then Some (Inl PlaylistTooLong, n')
               else
                 lookupPlaylist_loop cfg parse inst ident
                   \<lparr>res = res1,
                    resultsMap = merge_videos [] (videos res1),
                    resultsLength = length (Object_keys (merge_videos [] (videos res1))),
                    page = 1\<rparr> n'))"

text \<open>
  Line 185. \<^verbatim>\<open>resultsMap[key].lengthSeconds\<close> is a \<^verbatim>\<open>TypeError\<close> when \<^verbatim>\<open>resultsMap[key]\<close> is
  undefined, and \<^verbatim>\<open>videoToMedia\<close> may throw; \<^verbatim>\<open>filter\<close> and \<^verbatim>\<open>map\<close> stop at the first
  error.
\<close>

fun filter_keys :: "video js_object \<Rightarrow> string list \<Rightarrow> iv_error + string list" where
  "filter_keys obj [] = Inr []"
| "filter_keys obj (key # keys) =
     (case js_get obj key of
        None \<Rightarrow> Inl (TypeError ''Cannot read properties of undefined'')
      | Some v \<Rightarrow>
          (case filter_keys obj keys of
             Inl e \<Rightarrow> Inl e
           | Inr kept \<Rightarrow> Inr (if truthy_number (lengthSeconds v) then key # kept else kept)))"

fun map_keys :: "video js_object \<Rightarrow> string list \<Rightarrow> iv_error + media list" where
  "map_keys obj [] = Inr []"
| "map_keys obj (key # keys) =
     (case videoToMedia (js_get obj key) of
        Inl e \<Rightarrow> Inl e
      | Inr m \<Rightarrow> (case map_keys obj keys of Inl e \<Rightarrow> Inl e | Inr ms \<Rightarrow> Inr (m # ms)))"

text \<open>Lines 180 to 185: the check of the length and the result.\<close>

definition lookupPlaylist_result :: "loop_state \<Rightarrow> iv_error + media list" where
  "lookupPlaylist_result st =
     (if resultsLength st \<ge> PLAYLIST_ITEM_LIMIT then Inl PlaylistTooLong
      else
        (case filter_keys (resultsMap st) (Object_keys (resultsMap st)) of
           Inl e \<Rightarrow> Inl e
         | Inr keys \<Rightarrow> map_keys (resultsMap st) keys))"

text \<open>\<^verbatim>\<open>lookupPlaylist(id)\<close>: \<open>None\<close> when the loop never ends.\<close>

definition lookupPlaylist ::
  "config \<Rightarrow> (string \<Rightarrow> playlist option) \<Rightarrow> string \<Rightarrow> net \<Rightarrow>
     ((iv_error + media list) \<times> net) option"
where
  "lookupPlaylist cfg parse ident n =
     (case lookupPlaylist_collect cfg parse ident n of
        None \<Rightarrow> None
      | Some (Inl e, n') \<Rightarrow> Some (Inl e, n')
      | Some (Inr st, n') \<Rightarrow> Some (lookupPlaylist_result st, n'))"

subsection \<open>Runs over a sequence of pages\<close>

text \<open>
  The claims speak of what the upstream serves. \<open>serves\<close> says that the request for page
  \<open>p\<close> of the playlist is answered with status 200 and a body that parses to \<open>pg p\<close>;
  \<open>requests\<close> are the page requests, as the log of the transport records them.
\<close>

definition serves ::
  "config \<Rightarrow> (string \<Rightarrow> playlist option) \<Rightarrow> net \<Rightarrow> string \<Rightarrow> string \<Rightarrow> (nat \<Rightarrow> playlist) \<Rightarrow> nat \<Rightarrow> bool"
where
  "serves cfg parse n inst ident pg p =
     (case respond n (playlist_url inst ident p) (ivRequest_headers cfg None) of
        Inl failure \<Rightarrow> False
      | Inr r \<Rightarrow> statusCode r = 200 \<and> parse (data r) = Some (pg p))"

definition requests :: "config \<Rightarrow> string \<Rightarrow> string \<Rightarrow> nat list \<Rightarrow> (api_url \<times> headers) list" where
  "requests cfg inst ident ps = map (\<lambda>p. (playlist_url inst ident p, ivRequest_headers cfg None)) ps"

text \<open>
  The accumulator after pages 1 to \<open>k\<close> have been merged, in this order, and the
  variables of the loop at that moment.
\<close>

fun accumulated :: "(nat \<Rightarrow> playlist) \<Rightarrow> nat \<Rightarrow> video js_object" where
  "accumulated pg 0 = []"
| "accumulated pg (Suc k) = merge_videos (accumulated pg k) (videos (pg (Suc k)))"

definition state_after :: "(nat \<Rightarrow> playlist) \<Rightarrow> nat \<Rightarrow> loop_state" where
  "state_after pg k =
     \<lparr>res = pg k, resultsMap = accumulated pg k,
      resultsLength = length (Object_keys (accumulated pg k)), page = k\<rparr>"

text \<open>The values of an object, in the order of \<^verbatim>\<open>Object.keys\<close>.\<close>

definition Object_values :: "'v js_object \<Rightarrow> 'v list" where
  "Object_values obj = List.map_filter (js_get obj) (Object_keys obj)"

subsection \<open>Example inputs\<close>

text \<open>
  An upstream that answers the request for page \<open>p\<close> with status 200 and a body that
  names \<open>p\<close>, and a parser that reads such a body as page \<open>p\<close> of a given sequence
  of pages.
\<close>

definition upstream :: net where
  "upstream =
     \<lparr>respond = (\<lambda>u hs. case search u of
                            [(key, Num p)] \<Rightarrow> Inr \<lparr>statusCode = 200, data = replicate p CHR ''x''\<rparr>
                          | _ \<Rightarrow> Inl ''no such route''),
      sent = []\<rparr>"

definition parse_pages :: "(nat \<Rightarrow> playlist) \<Rightarrow> string \<Rightarrow> playlist option" where
  "parse_pages pg body = Some (pg (length body))"

definition configured :: config where
  "configured = \<lparr>INSTANCE = Some ''https://iv.example'', USER_AGENT = Some ''mediaquery''\<rparr>"

definition unconfigured :: config where
  "unconfigured = \<lparr>INSTANCE = None, USER_AGENT = None\<rparr>"

text \<open>An upstream that answers every request with the given status code and an empty body.\<close>

definition replying :: "int \<Rightarrow> net" where
  "replying code = \<lparr>respond = (\<lambda>u hs. Inr \<lparr>statusCode = code, data = []\<rparr>), sent = []\<rparr>"

definition cached_media :: media where
  "cached_media =
     \<lparr>media_id = ''dQw4w9WgXcQ'', media_type = ''invidious'', media_title = ''cached'',
      media_duration = Some 212, media_meta_thumbnail = ''https://img.youtube.com/vi/dQw4w9WgXcQ/0.jpg''\<rparr>"

text \<open>
  Two caches that hold \<open>cached_media\<close> for every id and whose \<^verbatim>\<open>put\<close> fails: the first
  throws an error object, the second rejects with \<^verbatim>\<open>undefined\<close>.
\<close>

definition warm_cache :: cache where
  "warm_cache =
     \<lparr>get_reply = (\<lambda>ident ns. Inr (Some cached_media)),
      put_reply = (\<lambda>m. Some (Thrown ''Error: read-only cache'')), gets = [], puts = []\<rparr>"

definition broken_cache :: cache where
  "broken_cache =
     \<lparr>get_reply = (\<lambda>ident ns. Inr (Some cached_media)),
      put_reply = (\<lambda>m. Some Nullish), gets = [], puts = []\<rparr>"

definition page_too_long :: "nat \<Rightarrow> playlist" where
  "page_too_long p = \<lparr>videoCount = 5000, videos = []\<rparr>"

text \<open>Items: two with a duration, one without, one with an error, one whose id is \<^verbatim>\<open>__proto__\<close>.\<close>

definition video_A :: video where
  "video_A = \<lparr>videoId = ''A'', title = ''first'', lengthSeconds = Some 10,
               videoThumbnails = [], error = None\<rparr>"

definition video_B :: video where
  "video_B = \<lparr>videoId = ''B'', title = ''second'', lengthSeconds = Some 20,
               videoThumbnails = [], error = None\<rparr>"

definition video_C :: video where
  "video_C = \<lparr>videoId = ''C'', title = ''third'', lengthSeconds = None,
               videoThumbnails = [], error = None\<rparr>"

definition video_E :: video where
  "video_E = \<lparr>videoId = ''E'', title = ''gone'', lengthSeconds = Some 30,
               videoThumbnails = [], error = Some ''removed''\<rparr>"

definition video_P :: video where
  "video_P = \<lparr>videoId = ''__proto__'', title = ''odd'', lengthSeconds = Some 40,
               videoThumbnails = [], error = None\<rparr>"

text \<open>
  Sequences of pages. \<open>pages_scenario\<close> is the scenario of the specification: three
  videos declared, \<open>[A, B]\<close> on page 1 and \<open>[B, C]\<close> on page 2.
\<close>

definition pages_scenario :: "nat \<Rightarrow> playlist" where
  "pages_scenario p =
     (if p = 1 then \<lparr>videoCount = 3, videos = [video_A, video_B]\<rparr>
      else if p = 2 then \<lparr>videoCount = 3, videos = [video_B, video_C]\<rparr>
      else \<lparr>videoCount = 3, videos = []\<rparr>)"

definition pages_repeat :: "nat \<Rightarrow> playlist" where
  "pages_repeat p = \<lparr>videoCount = 3, videos = [video_A, video_B]\<rparr>"

definition pages_pair :: "nat \<Rightarrow> playlist" where
  "pages_pair p = \<lparr>videoCount = 2, videos = [video_A, video_B]\<rparr>"

definition pages_short :: "nat \<Rightarrow> playlist" where
  "pages_short p =
     (if p = 1 then \<lparr>videoCount = 5, videos = [video_A, video_C]\<rparr>
      else \<lparr>videoCount = 5, videos = []\<rparr>)"

definition pages_error :: "nat \<Rightarrow> playlist" where
  "pages_error p =
     (if p = 1 then \<lparr>videoCount = 5, videos = [video_E]\<rparr>
      else \<lparr>videoCount = 5, videos = []\<rparr>)"

definition pages_one_error :: "nat \<Rightarrow> playlist" where
  "pages_one_error p =
     (if p = 1 then \<lparr>videoCount = 1, videos = [video_E]\<rparr>
      else \<lparr>videoCount = 1, videos = []\<rparr>)"

definition pages_proto :: "nat \<Rightarrow> playlist" where
  "pages_proto p =
     (if p = 1 then \<lparr>videoCount = 3, videos = [video_A, video_P]\<rparr>
      else if p = 2 then \<lparr>videoCount = 3, videos = [video_P, video_B]\<rparr>
      else \<lparr>videoCount = 3, videos = []\<rparr>)"

text \<open>
  A playlist of \<open>k\<close> videos with the ids \<^verbatim>\<open>a\<close>, \<^verbatim>\<open>aa\<close>, \<^verbatim>\<open>aaa\<close> and so on, all on page 1,
  that declares \<open>c\<close> videos.
\<close>

definition numbered_video :: "nat \<Rightarrow> video" where
  "numbered_video i =
     \<lparr>videoId = replicate (Suc i) CHR ''a'', title = [], lengthSeconds = Some 60,
      videoThumbnails = [], error = None\<rparr>"

definition pages_numbered :: "int \<Rightarrow> nat \<Rightarrow> nat \<Rightarrow> playlist" where
  "pages_numbered c k p =
     (if p = 1 then \<lparr>videoCount = c, videos = map numbered_video [0..<k]\<rparr>
      else \<lparr>videoCount = c, videos = []\<rparr>)"

section \<open>Properties\<close>

subsection \<open>The thumbnail\<close>

text \<open>
  The index that \<^verbatim>\<open>videoToMedia\<close> reads \<^verbatim>\<open>videoThumbnails\<close> at is within the list, so the
  read in \<open>media_of\<close> is a read of an element.
\<close>

lemma maxWidthI_range:
  "snd (foldl (\<lambda>(maxWidth, maxWidthI) (i, t).
                 if width t > maxWidth then (width t, i) else (maxWidth, maxWidthI))
              (w, j) (enumerate k ts)) = j \<or>
   (k \<le> snd (foldl (\<lambda>(maxWidth, maxWidthI) (i, t).
                 if width t > maxWidth then (width t, i) else (maxWidth, maxWidthI))
              (w, j) (enumerate k ts)) \<and>
    snd (foldl (\<lambda>(maxWidth, maxWidthI) (i, t).
                 if width t > maxWidth then (width t, i) else (maxWidth, maxWidthI))
              (w, j) (enumerate k ts)) < k + length ts)"
proof (induction ts arbitrary: w j k)
  case Nil
  then show ?case by simp
next
  case (Cons t ts)
  show ?case
  proof (cases "width t > w")
    case True
    with Cons.IH [of "width t" k "Suc k"] show ?thesis by auto
  next
    case False
    with Cons.IH [of w j "Suc k"] show ?thesis by auto
  qed
qed

lemma maxWidthI_less: "ts \<noteq> [] \<Longrightarrow> maxWidthI ts < length ts"
  using maxWidthI_range [of 0 0 0 ts] by (auto simp: maxWidthI_def)

lemma maxWidthI_example:
  "maxWidthI [\<lparr>width = 120, url = ''a''\<rparr>, \<lparr>width = 1280, url = ''b''\<rparr>,
              \<lparr>width = 1280, url = ''c''\<rparr>, \<lparr>width = 320, url = ''d''\<rparr>] = 1"
  by (simp add: maxWidthI_def)

subsection \<open>Objects\<close>

lemma length_Object_keys: "length (Object_keys obj) = length obj"
proof -
  have "length (filter is_array_index (map fst obj)) +
        length (filter (\<lambda>key. \<not> is_array_index key) (map fst obj)) = length (map fst obj)"
    by (rule sum_length_filter_compl)
  then show ?thesis by (simp add: Object_keys_def)
qed

lemma set_Object_keys: "set (Object_keys obj) = fst ` set obj"
  by (auto simp: Object_keys_def)

lemma distinct_Object_keys: "distinct (map fst obj) \<Longrightarrow> distinct (Object_keys obj)"
  by (auto simp: Object_keys_def distinct_map_filter)

lemma size_distinct: "distinct (map fst obj) \<Longrightarrow> length (Object_keys obj) = card (fst ` set obj)"
  by (metis length_Object_keys distinct_card length_map set_map)

lemma js_get_Object_keys: "key \<in> set (Object_keys obj) \<Longrightarrow> js_get obj key \<noteq> None"
  by (simp add: set_Object_keys js_get_def map_of_eq_None_iff)

lemma map_filter_in: "v \<in> set (List.map_filter f xs) \<Longrightarrow> \<exists>x\<in>set xs. f x = Some v"
  by (induction xs) (auto split: option.splits)

lemma Object_values_in:
  assumes "v \<in> set (Object_values obj)"
  shows "\<exists>key. (key, v) \<in> set obj"
proof -
  from map_filter_in [OF assms [unfolded Object_values_def]]
  obtain key where "js_get obj key = Some v" by blast
  then have "(key, v) \<in> set obj" by (simp add: js_get_def map_of_SomeD)
  then show ?thesis ..
qed

lemma distinct_js_set: "distinct (map fst obj) \<Longrightarrow> distinct (map fst (js_set obj key v))"
  by (simp add: js_set_def distinct_update)

lemma keys_js_set:
  "fst ` set (js_set obj key v) = fst ` set obj \<union> ({key} - {''__proto__''})"
  by (auto simp: js_set_def dom_update)

lemma map_of_js_set:
  "map_of (js_set obj key v) k =
     (if k = key \<and> key \<noteq> ''__proto__'' then Some v else map_of obj k)"
  by (simp add: js_set_def update_conv')

lemma set_update_subset: "set (AList.update k v al) \<subseteq> insert (k, v) (set al)"
  by (induction al) auto

lemma values_js_set:
  "(k, v) \<in> set (js_set obj key w) \<Longrightarrow> (k, v) \<in> set obj \<or> (k = key \<and> v = w)"
  using set_update_subset [of key w obj] by (auto simp: js_set_def split: if_splits)

lemma update_fresh: "k \<notin> fst ` set al \<Longrightarrow> AList.update k v al = al @ [(k, v)]"
  by (induction al) auto

lemma length_update_le: "length (AList.update k v al) \<le> Suc (length al)"
  by (induction al) auto

lemma length_js_set: "length (js_set obj key v) \<le> Suc (length obj)"
  using length_update_le [of key v obj] by (simp add: js_set_def)

lemma count_list_distinct:
  "distinct xs \<Longrightarrow> x \<in> set xs \<Longrightarrow> count_list xs x = 1"
  by (induction xs) auto

subsection \<open>Merging a page\<close>

lemma merge_videos_Nil [simp]: "merge_videos obj [] = obj"
  by (simp add: merge_videos_def)

lemma merge_videos_Cons:
  "merge_videos obj (v # vs) = merge_videos (js_set obj (videoId v) v) vs"
  by (simp add: merge_videos_def)

lemma merge_videos_snoc:
  "merge_videos obj (vs @ [v]) = js_set (merge_videos obj vs) (videoId v) v"
  by (simp add: merge_videos_def)

lemma merge_videos_append:
  "merge_videos obj (vs @ ws) = merge_videos (merge_videos obj vs) ws"
  by (simp add: merge_videos_def)

lemma distinct_merge_videos:
  "distinct (map fst obj) \<Longrightarrow> distinct (map fst (merge_videos obj vs))"
  by (induction vs arbitrary: obj) (simp_all add: merge_videos_Cons distinct_js_set)

lemma keys_merge_videos:
  "fst ` set (merge_videos obj vs) = fst ` set obj \<union> (videoId ` set vs - {''__proto__''})"
  by (induction vs arbitrary: obj) (auto simp: merge_videos_Cons keys_js_set)

lemma map_of_merge_videos:
  "map_of (merge_videos obj vs) k =
     (case find (\<lambda>v. videoId v = k) (rev vs) of
        Some v \<Rightarrow> if k = ''__proto__'' then map_of obj k else Some v
      | None \<Rightarrow> map_of obj k)"
proof (induction vs rule: rev_induct)
  case Nil
  then show ?case by simp
next
  case (snoc v vs)
  then show ?case
    by (auto simp: merge_videos_snoc map_of_js_set split: option.splits)
qed

lemma values_merge_videos:
  "(k, v) \<in> set (merge_videos obj vs) \<Longrightarrow> (k, v) \<in> set obj \<or> (v \<in> set vs \<and> videoId v = k)"
proof (induction vs arbitrary: obj)
  case Nil
  then show ?case by simp
next
  case (Cons w ws)
  from Cons.IH [OF Cons.prems [unfolded merge_videos_Cons]]
  show ?case by (auto dest: values_js_set)
qed

lemma keys_fresh:
  assumes "distinct (map fst obj @ map videoId vs)" "''__proto__'' \<notin> videoId ` set vs"
  shows "map fst (merge_videos obj vs) = map fst obj @ map videoId vs"
  using assms
proof (induction vs arbitrary: obj)
  case Nil
  then show ?case by simp
next
  case (Cons v vs)
  have k: "js_set obj (videoId v) v = obj @ [(videoId v, v)]"
    using Cons.prems by (auto simp: js_set_def intro!: update_fresh)
  show ?case
    using Cons.prems by (simp add: merge_videos_Cons k Cons.IH)
qed

lemma length_merge_videos: "length (merge_videos obj vs) \<le> length obj + length vs"
proof (induction vs arbitrary: obj)
  case Nil
  then show ?case by simp
next
  case (Cons v vs)
  have "length (merge_videos (js_set obj (videoId v) v) vs) \<le>
          length (js_set obj (videoId v) v) + length vs"
    by (rule Cons.IH)
  also have "\<dots> \<le> Suc (length obj) + length vs"
    using length_js_set [of obj "videoId v" v] by simp
  finally show ?case by (simp add: merge_videos_Cons)
qed

subsection \<open>The accumulator after some pages\<close>

lemma keys_accumulated:
  "fst ` set (accumulated pg k) =
     (\<Union>p\<in>{1..k}. videoId ` set (videos (pg p))) - {''__proto__''}"
proof (induction k)
  case 0
  then show ?case by simp
next
  case (Suc k)
  have "{1..Suc k} = insert (Suc k) {1..k}" by auto
  with Suc show ?case by (auto simp: keys_merge_videos)
qed

lemma distinct_accumulated: "distinct (map fst (accumulated pg k))"
  by (induction k) (simp_all add: distinct_merge_videos)

lemma size_accumulated:
  "length (Object_keys (accumulated pg k)) = card (fst ` set (accumulated pg k))"
  by (rule size_distinct) (rule distinct_accumulated)

lemma values_accumulated:
  "(key, v) \<in> set (accumulated pg k) \<Longrightarrow> \<exists>p. 1 \<le> p \<and> p \<le> k \<and> v \<in> set (videos (pg p))"
proof (induction k)
  case 0
  then show ?case by simp
next
  case (Suc k)
  from values_merge_videos [OF Suc.prems [simplified]]
  show ?case
  proof
    assume "(key, v) \<in> set (accumulated pg k)"
    from Suc.IH [OF this] show ?thesis by (meson le_Suc_eq)
  next
    assume "v \<in> set (videos (pg (Suc k))) \<and> videoId v = key"
    then show ?thesis by (intro exI [of _ "Suc k"]) simp
  qed
qed

lemma accumulated_concat:
  "accumulated pg q = merge_videos [] (concat (map (\<lambda>p. videos (pg p)) [1..<Suc q]))"
  by (induction q) (simp_all add: merge_videos_append)

lemma covered:
  "finite A \<Longrightarrow> A \<subseteq> (\<Union>p\<in>{1..}. f p) \<Longrightarrow> \<exists>K::nat. A \<subseteq> (\<Union>p\<in>{1..K}. f p)"
proof (induction rule: finite_induct)
  case empty
  then show ?case by simp
next
  case (insert x A)
  then obtain K where K: "A \<subseteq> (\<Union>p\<in>{1..K}. f p)" by auto
  from insert.prems obtain p where p: "1 \<le> p" "x \<in> f p" by auto
  have "insert x A \<subseteq> (\<Union>p\<in>{1..max K p}. f p)"
  proof
    fix y assume "y \<in> insert x A"
    then show "y \<in> (\<Union>p\<in>{1..max K p}. f p)"
    proof
      assume "y = x"
      with p show ?thesis by auto
    next
      assume "y \<in> A"
      with K obtain r where "r \<in> {1..K}" "y \<in> f r" by auto
      then show ?thesis by auto
    qed
  qed
  then show ?case ..
qed

subsection \<open>Requests\<close>

lemma ivRequest_ok:
  assumes "respond n u (ivRequest_headers cfg headers) = Inr r"
    and "statusCode r = 200" and "parse (data r) = Some v"
  shows "ivRequest cfg parse u headers n =
           (Inr v, n\<lparr>sent := sent n @ [(u, ivRequest_headers cfg headers)]\<rparr>)"
  using assms by (simp add: ivRequest_def Let_def)

lemma ivRequest_serves:
  assumes "serves cfg parse n inst ident pg p"
  shows "ivRequest cfg parse (playlist_url inst ident p) None n =
           (Inr (pg p), n\<lparr>sent := sent n @ requests cfg inst ident [p]\<rparr>)"
  using assms by (auto simp: serves_def requests_def ivRequest_ok split: sum.splits)

lemma serves_sent [simp]:
  "serves cfg parse (n\<lparr>sent := xs\<rparr>) inst ident pg p = serves cfg parse n inst ident pg p"
  by (simp add: serves_def)

lemma serves_respond:
  "respond m = respond n \<Longrightarrow>
     serves cfg parse m inst ident pg p = serves cfg parse n inst ident pg p"
  by (simp add: serves_def)

subsection \<open>The result of lookupPlaylist\<close>

lemma filter_keys_defined:
  "\<forall>key\<in>set keys. js_get obj key \<noteq> None \<Longrightarrow>
     filter_keys obj keys =
       Inr (filter (\<lambda>key. \<exists>v. js_get obj key = Some v \<and> truthy_number (lengthSeconds v)) keys)"
  by (induction keys) auto

lemma values_filter:
  "List.map_filter (js_get obj) (filter (\<lambda>key. \<exists>v. js_get obj key = Some v \<and> P v) keys) =
     filter P (List.map_filter (js_get obj) keys)"
  by (induction keys) (auto split: option.splits)


lemma map_keys_ok:
  "\<forall>key\<in>set keys. js_get obj key \<noteq> None \<Longrightarrow>
   \<forall>v\<in>set (List.map_filter (js_get obj) keys). truthy_string (error v) = None \<Longrightarrow>
     map_keys obj keys = Inr (map media_of (List.map_filter (js_get obj) keys))"
  by (induction keys) (auto simp: videoToMedia_def split: option.splits)


lemma result_ok:
  assumes "resultsLength st < PLAYLIST_ITEM_LIMIT"
    and "\<forall>v\<in>set (Object_values (resultsMap st)).
           truthy_number (lengthSeconds v) \<longrightarrow> truthy_string (error v) = None"
  shows "lookupPlaylist_result st =
           Inr (map media_of
                  (filter (\<lambda>v. truthy_number (lengthSeconds v)) (Object_values (resultsMap st))))"
proof -
  let ?obj = "resultsMap st"
  let ?kept = "filter (\<lambda>key. \<exists>v. js_get ?obj key = Some v \<and> truthy_number (lengthSeconds v))
                 (Object_keys ?obj)"
  have f: "filter_keys ?obj (Object_keys ?obj) = Inr ?kept"
    by (rule filter_keys_defined) (simp add: js_get_Object_keys)
  have "map_keys ?obj ?kept = Inr (map media_of (List.map_filter (js_get ?obj) ?kept))"
  proof (rule map_keys_ok)
    show "\<forall>key\<in>set ?kept. js_get ?obj key \<noteq> None" by auto
    show "\<forall>v\<in>set (List.map_filter (js_get ?obj) ?kept). truthy_string (error v) = None"
      using assms(2) by (simp add: values_filter Object_values_def)
  qed
  with f assms(1) show ?thesis
    by (simp add: lookupPlaylist_result_def values_filter Object_values_def)
qed

subsection \<open>The loop of lookupPlaylist\<close>

lemma loop_exit:
  "\<not> loop_condition st \<Longrightarrow> lookupPlaylist_loop cfg parse inst ident st n = Some (Inr st, n)"
  by (subst lookupPlaylist_loop.simps) simp

lemma loop_length:
  assumes "lookupPlaylist_loop cfg parse inst ident st n = Some (Inr st', n')"
    and "resultsLength st = length (Object_keys (resultsMap st))"
  shows "resultsLength st' = length (Object_keys (resultsMap st'))"
proof -
  have "\<forall>st' n'. y = (Inr st', n') \<longrightarrow> resultsLength st = length (Object_keys (resultsMap st)) \<longrightarrow>
          resultsLength st' = length (Object_keys (resultsMap st'))"
    if "lookupPlaylist_loop cfg parse inst ident st n = Some y" for y
    using that
  proof (induction rule: lookupPlaylist_loop.raw_induct[rotated 1, consumes 1])
    case (1 loop cfg parse inst ident st n y)
    show ?case
    proof (cases "loop_condition st")
      case True
      with 1(2) show ?thesis
        by (auto split: prod.splits sum.splits dest!: 1(1))
    next
      case False
      with 1(2) show ?thesis by auto
    qed
  qed
  with assms show ?thesis by blast
qed

lemma loop_step:
  assumes "loop_condition (state_after pg p)" "serves cfg parse n inst ident pg (Suc p)"
  shows "lookupPlaylist_loop cfg parse inst ident (state_after pg p) n =
         lookupPlaylist_loop cfg parse inst ident (state_after pg (Suc p))
            (n\<lparr>sent := sent n @ requests cfg inst ident [Suc p]\<rparr>)"
  using assms
  by (subst lookupPlaylist_loop.simps) (simp add: ivRequest_serves state_after_def)

lemma loop_reaches:
  assumes "\<forall>k. p \<le> k \<and> k < q \<longrightarrow> loop_condition (state_after pg k)"
    and "p \<le> q"
    and "\<forall>k. p < k \<and> k \<le> q \<longrightarrow> serves cfg parse n inst ident pg k"
  shows "lookupPlaylist_loop cfg parse inst ident (state_after pg p) n =
           lookupPlaylist_loop cfg parse inst ident (state_after pg q)
             (n\<lparr>sent := sent n @ requests cfg inst ident [Suc p..<Suc q]\<rparr>)"
  using assms
proof (induction "q - p" arbitrary: p n)
  case 0
  then have "p = q" by simp
  then show ?case by (simp add: requests_def)
next
  case (Suc d)
  then have lt: "p < q" by simp
  have c: "loop_condition (state_after pg p)" using Suc.prems(1) lt by simp
  have s: "serves cfg parse n inst ident pg (Suc p)" using Suc.prems(3) lt by simp
  let ?n = "n\<lparr>sent := sent n @ requests cfg inst ident [Suc p]\<rparr>"
  have "lookupPlaylist_loop cfg parse inst ident (state_after pg (Suc p)) ?n =
          lookupPlaylist_loop cfg parse inst ident (state_after pg q)
            (?n\<lparr>sent := sent ?n @ requests cfg inst ident [Suc (Suc p)..<Suc q]\<rparr>)"
    using Suc.hyps(2) Suc.prems lt
    by (intro Suc.hyps(1)) auto
  moreover have "[Suc p..<Suc q] = Suc p # [Suc (Suc p)..<Suc q]"
    using lt by (simp add: upt_conv_Cons)
  ultimately show ?case
    by (simp add: loop_step [OF c s] requests_def)
qed

lemma loop_run:
  assumes "\<forall>k. p \<le> k \<and> k < q \<longrightarrow> loop_condition (state_after pg k)"
    and "\<not> loop_condition (state_after pg q)"
    and "p \<le> q"
    and "\<forall>k. p < k \<and> k \<le> q \<longrightarrow> serves cfg parse n inst ident pg k"
  shows "lookupPlaylist_loop cfg parse inst ident (state_after pg p) n =
           Some (Inr (state_after pg q),
                 n\<lparr>sent := sent n @ requests cfg inst ident [Suc p..<Suc q]\<rparr>)"
  using loop_reaches [OF assms(1,3,4)] loop_exit [OF assms(2)] by simp

lemma loop_diverges:
  assumes "\<forall>k\<ge>p. loop_condition (state_after pg k)"
    and "\<forall>k>p. serves cfg parse n inst ident pg k"
  shows "lookupPlaylist_loop cfg parse inst ident (state_after pg p) n = None"
proof -
  have never: "\<not> (cfg' = cfg \<and> parse' = parse \<and> inst' = inst \<and> ident' = ident \<and>
           (\<exists>k\<ge>p. st = state_after pg k) \<and> respond m = respond n)"
    if "lookupPlaylist_loop cfg' parse' inst' ident' st m = Some y"
    for cfg' parse' inst' ident' st m y
    using that
  proof (induction rule: lookupPlaylist_loop.raw_induct[rotated 1, consumes 1])
    case (1 loop cfg' parse' inst' ident' st m y)
    show ?case
    proof
      assume a: "cfg' = cfg \<and> parse' = parse \<and> inst' = inst \<and> ident' = ident \<and>
           (\<exists>k\<ge>p. st = state_after pg k) \<and> respond m = respond n"
      then obtain k where k: "k \<ge> p" "st = state_after pg k" by blast
      have c: "loop_condition st" using assms(1) k by simp
      have "serves cfg parse n inst ident pg (Suc k)" using assms(2) k by simp
      then have s: "serves cfg parse m inst ident pg (Suc k)" using a serves_respond by blast
      have pk: "page st = k" using k by (simp add: state_after_def)
      have "loop cfg parse inst ident (state_after pg (Suc k))
              (m\<lparr>sent := sent m @ requests cfg inst ident [Suc k]\<rparr>) = Some y"
        using 1(2) a c k(2) pk ivRequest_serves [OF s]
        by (simp add: state_after_def)
      from 1(1) [OF this] have "\<not> (\<exists>j\<ge>p. state_after pg (Suc k) = state_after pg j)"
        using a by simp
      moreover have "Suc k \<ge> p" using k(1) by simp
      ultimately show False by blast
    qed
  qed
  show ?thesis
  proof (cases "lookupPlaylist_loop cfg parse inst ident (state_after pg p) n")
    case None
    then show ?thesis .
  next
    case (Some y)
    from never [OF this] have "\<not> (\<exists>k\<ge>p. state_after pg p = state_after pg k)" by simp
    then show ?thesis by blast
  qed
qed

lemma collect_first:
  assumes "truthy_string (INSTANCE cfg) = Some inst"
    and "serves cfg parse n inst ident pg 1"
    and "videoCount (pg 1) \<le> int PLAYLIST_ITEM_LIMIT"
  shows "lookupPlaylist_collect cfg parse ident n =
           lookupPlaylist_loop cfg parse inst ident (state_after pg 1)
             (n\<lparr>sent := sent n @ requests cfg inst ident [1]\<rparr>)"
  using assms
  by (simp add: lookupPlaylist_collect_def ivRequest_serves state_after_def)

lemma collect_reaches:
  assumes "truthy_string (INSTANCE cfg) = Some inst"
    and "1 \<le> q"
    and "\<forall>k. 1 \<le> k \<and> k \<le> q \<longrightarrow> serves cfg parse n inst ident pg k"
    and "videoCount (pg 1) \<le> int PLAYLIST_ITEM_LIMIT"
    and "\<forall>k. 1 \<le> k \<and> k < q \<longrightarrow> loop_condition (state_after pg k)"
  shows "lookupPlaylist_collect cfg parse ident n =
           lookupPlaylist_loop cfg parse inst ident (state_after pg q)
             (n\<lparr>sent := sent n @ requests cfg inst ident [1..<Suc q]\<rparr>)"
proof -
  let ?n = "n\<lparr>sent := sent n @ requests cfg inst ident [1]\<rparr>"
  have "lookupPlaylist_loop cfg parse inst ident (state_after pg 1) ?n =
          lookupPlaylist_loop cfg parse inst ident (state_after pg q)
            (?n\<lparr>sent := sent ?n @ requests cfg inst ident [Suc 1..<Suc q]\<rparr>)"
    using assms by (intro loop_reaches) auto
  moreover have "[1..<Suc q] = 1 # [Suc 1..<Suc q]"
    using assms(2) by (simp add: upt_conv_Cons)
  ultimately show ?thesis
    using assms by (simp add: collect_first [where pg = pg] requests_def)
qed

lemma collect_run:
  assumes "truthy_string (INSTANCE cfg) = Some inst"
    and "1 \<le> q"
    and "\<forall>k. 1 \<le> k \<and> k \<le> q \<longrightarrow> serves cfg parse n inst ident pg k"
    and "videoCount (pg 1) \<le> int PLAYLIST_ITEM_LIMIT"
    and "\<forall>k. 1 \<le> k \<and> k < q \<longrightarrow> loop_condition (state_after pg k)"
    and "\<not> loop_condition (state_after pg q)"
  shows "lookupPlaylist_collect cfg parse ident n =
           Some (Inr (state_after pg q),
                 n\<lparr>sent := sent n @ requests cfg inst ident [1..<Suc q]\<rparr>)"
  using collect_reaches [OF assms(1-5)] loop_exit [OF assms(6)] by simp

lemma collect_diverges:
  assumes "truthy_string (INSTANCE cfg) = Some inst"
    and "\<forall>k\<ge>1. serves cfg parse n inst ident pg k"
    and "videoCount (pg 1) \<le> int PLAYLIST_ITEM_LIMIT"
    and "\<forall>k\<ge>1. loop_condition (state_after pg k)"
  shows "lookupPlaylist_collect cfg parse ident n = None"
proof -
  let ?n = "n\<lparr>sent := sent n @ requests cfg inst ident [1]\<rparr>"
  have "lookupPlaylist_loop cfg parse inst ident (state_after pg 1) ?n = None"
    using assms by (intro loop_diverges) auto
  then show ?thesis
    using assms by (simp add: collect_first [where pg = pg])
qed

lemma collect_length:
  assumes "lookupPlaylist_collect cfg parse ident n = Some (Inr st, n')"
  shows "resultsLength st = length (Object_keys (resultsMap st))"
  using assms
  by (auto simp: lookupPlaylist_collect_def split: option.splits prod.splits sum.splits if_splits
      dest!: loop_length)

lemma collect_too_long:
  assumes "truthy_string (INSTANCE cfg) = Some inst"
    and "serves cfg parse n inst ident pg 1"
    and "videoCount (pg 1) > int PLAYLIST_ITEM_LIMIT"
  shows "lookupPlaylist_collect cfg parse ident n =
           Some (Inl PlaylistTooLong, n\<lparr>sent := sent n @ requests cfg inst ident [1]\<rparr>)"
  using assms by (simp add: lookupPlaylist_collect_def ivRequest_serves)

lemma size_before:
  assumes "1 \<le> q" and "\<forall>k. 1 \<le> k \<and> k < q \<longrightarrow> loop_condition (state_after pg k)"
  shows "length (accumulated pg (q - 1)) \<le> PLAYLIST_ITEM_LIMIT - 1"
proof (cases "q = 1")
  case True
  then show ?thesis by simp
next
  case False
  with assms have "loop_condition (state_after pg (q - 1))" by simp
  then show ?thesis
    by (auto simp: loop_condition_def state_after_def length_Object_keys)
qed

subsection \<open>Runs on the example inputs\<close>

lemma show_int_503: "show_int 503 = ''503''"
  by code_simp

lemma configured_instance: "truthy_string (INSTANCE configured) = Some ''https://iv.example''"
  by (simp add: configured_def truthy_string_def)

lemma serves_upstream: "serves cfg (parse_pages pg) upstream inst ident pg k"
  by (simp add: serves_def upstream_def playlist_url_def parse_pages_def)

lemma not_index_A:
  "\<not> is_array_index ''A''" "\<not> is_array_index ''B''"
  "\<not> is_array_index ''C''" "\<not> is_array_index ''E''"
  by (simp_all add: is_array_index_def is_digit_def)

lemma one_page:
  assumes "\<not> loop_condition (state_after pg (Suc 0))"
    and "videoCount (pg 1) \<le> int PLAYLIST_ITEM_LIMIT"
  shows "lookupPlaylist_collect configured (parse_pages pg) ''PL1'' upstream =
     Some (Inr (state_after pg 1),
           upstream\<lparr>sent := requests configured ''https://iv.example'' ''PL1'' [1]\<rparr>)"
proof -
  have "lookupPlaylist_collect configured (parse_pages pg) ''PL1'' upstream =
     Some (Inr (state_after pg 1),
           upstream\<lparr>sent := sent upstream @
             requests configured ''https://iv.example'' ''PL1'' [1..<Suc 1]\<rparr>)"
    by (rule collect_run [OF configured_instance])
       (use assms in \<open>simp_all add: serves_upstream\<close>)
  then show ?thesis by (simp add: upstream_def)
qed

lemma two_pages:
  assumes "loop_condition (state_after pg (Suc 0))" "\<not> loop_condition (state_after pg 2)"
    and "videoCount (pg 1) \<le> int PLAYLIST_ITEM_LIMIT"
  shows "lookupPlaylist_collect configured (parse_pages pg) ''PL1'' upstream =
     Some (Inr (state_after pg 2),
           upstream\<lparr>sent := requests configured ''https://iv.example'' ''PL1'' [1, 2]\<rparr>)"
proof -
  have "lookupPlaylist_collect configured (parse_pages pg) ''PL1'' upstream =
     Some (Inr (state_after pg 2),
           upstream\<lparr>sent := sent upstream @
             requests configured ''https://iv.example'' ''PL1'' [1..<Suc 2]\<rparr>)"
  proof (rule collect_run [OF configured_instance])
    show "\<forall>k. 1 \<le> k \<and> k < 2 \<longrightarrow> loop_condition (state_after pg k)"
    proof (intro allI impI)
      fix k :: nat assume "1 \<le> k \<and> k < 2"
      then have "k = Suc 0" by simp
      with assms(1) show "loop_condition (state_after pg k)" by simp
    qed
  qed (use assms in \<open>simp_all add: serves_upstream\<close>)
  moreover have "[1..<Suc 2] = [1, 2::nat]" by (simp add: upt_rec)
  ultimately show ?thesis by (simp add: upstream_def)
qed

lemma three_pages:
  assumes "loop_condition (state_after pg (Suc 0))" "loop_condition (state_after pg 2)"
    and "\<not> loop_condition (state_after pg 3)"
    and "videoCount (pg 1) \<le> int PLAYLIST_ITEM_LIMIT"
  shows "lookupPlaylist_collect configured (parse_pages pg) ''PL1'' upstream =
     Some (Inr (state_after pg 3),
           upstream\<lparr>sent := requests configured ''https://iv.example'' ''PL1'' [1, 2, 3]\<rparr>)"
proof -
  have "lookupPlaylist_collect configured (parse_pages pg) ''PL1'' upstream =
     Some (Inr (state_after pg 3),
           upstream\<lparr>sent := sent upstream @
             requests configured ''https://iv.example'' ''PL1'' [1..<Suc 3]\<rparr>)"
  proof (rule collect_run [OF configured_instance])
    show "\<forall>k. 1 \<le> k \<and> k < 3 \<longrightarrow> loop_condition (state_after pg k)"
    proof (intro allI impI)
      fix k :: nat assume "1 \<le> k \<and> k < 3"
      then have "k = Suc 0 \<or> k = 2" by auto
      with assms(1,2) show "loop_condition (state_after pg k)" by auto
    qed
  qed (use assms in \<open>simp_all add: serves_upstream\<close>)
  moreover have "[1..<Suc 3] = [1, 2, 3::nat]" by (simp add: upt_rec)
  ultimately show ?thesis by (simp add: upstream_def)
qed

lemma scenario_acc:
  "accumulated pages_scenario (Suc 0) = [(''A'', video_A), (''B'', video_B)]"
  "accumulated pages_scenario 2 = [(''A'', video_A), (''B'', video_B), (''C'', video_C)]"
  by (simp_all add: numeral_2_eq_2 pages_scenario_def merge_videos_def js_set_def
      video_A_def video_B_def video_C_def)




lemma scenario_ids:
  "(\<Union>p\<in>{1..}. videoId ` set (videos (pages_scenario p))) = {''A'', ''B'', ''C''}"
proof
  show "(\<Union>p\<in>{1..}. videoId ` set (videos (pages_scenario p))) \<subseteq> {''A'', ''B'', ''C''}"
    by (auto simp: pages_scenario_def video_A_def video_B_def video_C_def split: if_splits)
  have a: "videoId ` set (videos (pages_scenario 1)) \<union>
           videoId ` set (videos (pages_scenario 2))
          \<subseteq> (\<Union>p\<in>{1..}. videoId ` set (videos (pages_scenario p)))"
    by (intro Un_least UN_upper) simp_all
  have b: "videoId ` set (videos (pages_scenario 1)) \<union>
           videoId ` set (videos (pages_scenario 2)) = {''A'', ''B'', ''C''}"
    by (auto simp: pages_scenario_def video_A_def video_B_def video_C_def)
  show "{''A'', ''B'', ''C''} \<subseteq> (\<Union>p\<in>{1..}. videoId ` set (videos (pages_scenario p)))"
    using a unfolding b .
qed

lemma pair_acc:
  "accumulated pages_pair (Suc 0) = [(''A'', video_A), (''B'', video_B)]"
  "accumulated pages_repeat k = (if k = 0 then [] else [(''A'', video_A), (''B'', video_B)])"
proof -
  show "accumulated pages_pair (Suc 0) = [(''A'', video_A), (''B'', video_B)]"
    by (simp add: pages_pair_def merge_videos_def js_set_def video_A_def video_B_def)
  show "accumulated pages_repeat k = (if k = 0 then [] else [(''A'', video_A), (''B'', video_B)])"
    by (induction k)
       (simp_all add: pages_repeat_def merge_videos_def js_set_def video_A_def video_B_def)
qed

lemma short_acc:
  "accumulated pages_short (Suc 0) = [(''A'', video_A), (''C'', video_C)]"
  "accumulated pages_short 2 = [(''A'', video_A), (''C'', video_C)]"
  by (simp_all add: numeral_2_eq_2 pages_short_def merge_videos_def js_set_def
      video_A_def video_C_def)

lemma short_run:
  "lookupPlaylist_collect configured (parse_pages pages_short) ''PL1'' upstream =
     Some (Inr (state_after pages_short 2),
           upstream\<lparr>sent := requests configured ''https://iv.example'' ''PL1'' [1, 2]\<rparr>)"
  by (rule two_pages)
     (simp_all add: loop_condition_def state_after_def short_acc length_Object_keys
        pages_short_def PLAYLIST_ITEM_LIMIT_def del: accumulated.simps)

lemma short_values: "Object_values (accumulated pages_short 2) = [video_A, video_C]"
  by (simp add: short_acc Object_values_def Object_keys_def not_index_A js_get_def)

lemma error_acc:
  "accumulated pages_error (Suc 0) = [(''E'', video_E)]"
  "accumulated pages_error 2 = [(''E'', video_E)]"
  "accumulated pages_one_error (Suc 0) = [(''E'', video_E)]"
  by (simp_all add: numeral_2_eq_2 pages_error_def pages_one_error_def merge_videos_def
      js_set_def video_E_def)

lemma error_run:
  "lookupPlaylist_collect configured (parse_pages pages_error) ''PL1'' upstream =
     Some (Inr (state_after pages_error 2),
           upstream\<lparr>sent := requests configured ''https://iv.example'' ''PL1'' [1, 2]\<rparr>)"
  by (rule two_pages)
     (simp_all add: loop_condition_def state_after_def error_acc length_Object_keys
        pages_error_def PLAYLIST_ITEM_LIMIT_def del: accumulated.simps)

lemma error_result:
  "lookupPlaylist_result (state_after pages_error 2) =
     Inl (InvalidItem ''Video contains error: removed'')"
  by (simp add: lookupPlaylist_result_def state_after_def error_acc length_Object_keys
      PLAYLIST_ITEM_LIMIT_def Object_keys_def not_index_A js_get_def video_E_def
      truthy_number_def truthy_string_def videoToMedia_def del: accumulated.simps)

lemma one_error_ids:
  "(\<Union>p\<in>{1..}. videoId ` set (videos (pages_one_error p))) = {''E''}"
proof
  show "(\<Union>p\<in>{1..}. videoId ` set (videos (pages_one_error p))) \<subseteq> {''E''}"
    by (auto simp: pages_one_error_def video_E_def split: if_splits)
  have a: "videoId ` set (videos (pages_one_error 1))
          \<subseteq> (\<Union>p\<in>{1..}. videoId ` set (videos (pages_one_error p)))"
    by (intro UN_upper) simp
  have b: "videoId ` set (videos (pages_one_error 1)) = {''E''}"
    by (simp add: pages_one_error_def video_E_def)
  show "{''E''} \<subseteq> (\<Union>p\<in>{1..}. videoId ` set (videos (pages_one_error p)))"
    using a unfolding b .
qed

lemma one_error_run:
  "lookupPlaylist_collect configured (parse_pages pages_one_error) ''PL1'' upstream =
     Some (Inr (state_after pages_one_error 1),
           upstream\<lparr>sent := requests configured ''https://iv.example'' ''PL1'' [1]\<rparr>)"
  by (rule one_page)
     (simp_all add: loop_condition_def state_after_def error_acc length_Object_keys
        pages_one_error_def PLAYLIST_ITEM_LIMIT_def del: accumulated.simps)

lemma one_error_result:
  "lookupPlaylist_result (state_after pages_one_error 1) =
     Inl (InvalidItem ''Video contains error: removed'')"
  by (simp add: lookupPlaylist_result_def state_after_def error_acc length_Object_keys
      PLAYLIST_ITEM_LIMIT_def Object_keys_def not_index_A js_get_def video_E_def
      truthy_number_def truthy_string_def videoToMedia_def del: accumulated.simps)

lemma proto_acc:
  "accumulated pages_proto (Suc 0) = [(''A'', video_A)]"
  "accumulated pages_proto 2 = [(''A'', video_A), (''B'', video_B)]"
  "accumulated pages_proto 3 = [(''A'', video_A), (''B'', video_B)]"
  by (simp_all add: numeral_2_eq_2 numeral_3_eq_3 pages_proto_def merge_videos_def
      js_set_def video_A_def video_B_def video_P_def)

lemma proto_run:
  "lookupPlaylist_collect configured (parse_pages pages_proto) ''PL1'' upstream =
     Some (Inr (state_after pages_proto 3),
           upstream\<lparr>sent := requests configured ''https://iv.example'' ''PL1'' [1, 2, 3]\<rparr>)"
  by (rule three_pages)
     (simp_all add: loop_condition_def state_after_def proto_acc length_Object_keys
        pages_proto_def PLAYLIST_ITEM_LIMIT_def del: accumulated.simps)

lemma numbered_distinct: "distinct (map videoId (map numbered_video [0..<k]))"
proof -
  have "inj_on (\<lambda>i. replicate (Suc i) CHR ''a'') (set [0..<k])"
    by (rule inj_onI) (metis length_replicate nat.inject)
  then show ?thesis by (simp add: distinct_map numbered_video_def comp_def)
qed

lemma numbered_keys:
  "map fst (accumulated (pages_numbered c k) (Suc 0)) = map videoId (map numbered_video [0..<k])"
proof -
  have "map fst (merge_videos [] (map numbered_video [0..<k])) =
          map fst ([] :: video js_object) @ map videoId (map numbered_video [0..<k])"
  proof (rule keys_fresh)
    show "distinct (map fst ([] :: video js_object) @ map videoId (map numbered_video [0..<k]))"
      using numbered_distinct [of k] by simp
    show "''__proto__'' \<notin> videoId ` set (map numbered_video [0..<k])"
      by (auto simp: numbered_video_def)
  qed
  then show ?thesis by (simp add: pages_numbered_def)
qed

lemma numbered_size:
  "length (Object_keys (accumulated (pages_numbered c k) (Suc 0))) = k"
proof -
  have "length (map fst (accumulated (pages_numbered c k) (Suc 0))) = k"
    unfolding numbered_keys by simp
  then show ?thesis by (simp add: length_Object_keys del: accumulated.simps)
qed

lemma numbered_run:
  assumes "c \<le> int PLAYLIST_ITEM_LIMIT" "PLAYLIST_ITEM_LIMIT \<le> k"
  shows "lookupPlaylist_collect configured (parse_pages (pages_numbered c k)) ''PL1'' upstream =
     Some (Inr (state_after (pages_numbered c k) 1),
           upstream\<lparr>sent := requests configured ''https://iv.example'' ''PL1'' [1]\<rparr>)"
proof (rule one_page)
  show "\<not> loop_condition (state_after (pages_numbered c k) (Suc 0))"
    using assms(2)
    by (simp add: loop_condition_def state_after_def numbered_size del: accumulated.simps)
  show "videoCount (pages_numbered c k 1) \<le> int PLAYLIST_ITEM_LIMIT"
    using assms(1) by (simp add: pages_numbered_def)
qed

section \<open>The claims\<close>

subsection \<open>Status codes\<close>

text \<open>
  C8: the status code of the response decides the outcome of \<^verbatim>\<open>ivRequest\<close>: 429 is
  \<open>RateLimited\<close> with the origin of the instance, 404 is \<open>NotFound\<close>, 500 is \<open>Forbidden\<close>,
  any other code but 200 is \<open>UpstreamError\<close> with the code, and only with 200 is the body
  parsed.
\<close>

theorem ivRequest_status_taxonomy:
  assumes "respond n u (ivRequest_headers cfg headers) = Inr r"
  shows "fst (ivRequest cfg parse u headers n) =
     (if statusCode r = 429 then Inl (RateLimited (origin u))
      else if statusCode r = 404 then Inl NotFound
      else if statusCode r = 500 then Inl Forbidden
      else if statusCode r \<noteq> 200 then Inl (UpstreamError (origin u) (statusCode r))
      else (case parse (data r) of
              None \<Rightarrow> Inl (MalformedResponse (origin u))
            | Some v \<Rightarrow> Inr v))"
  using assms by (simp add: ivRequest_def Let_def split: option.splits)

theorem ivRequest_status_taxonomy_witness:
  "fst (ivRequest configured (parse_pages page_too_long)
          (playlist_url ''https://iv.example'' ''PL1'' 1) None (replying 429)) =
     Inl (RateLimited ''https://iv.example'') \<and>
   fst (ivRequest configured (parse_pages page_too_long)
          (playlist_url ''https://iv.example'' ''PL1'' 1) None (replying 404)) = Inl NotFound \<and>
   fst (ivRequest configured (parse_pages page_too_long)
          (playlist_url ''https://iv.example'' ''PL1'' 1) None (replying 500)) = Inl Forbidden \<and>
   fst (ivRequest configured (parse_pages page_too_long)
          (playlist_url ''https://iv.example'' ''PL1'' 1) None (replying 503)) =
     Inl (UpstreamError ''https://iv.example'' 503) \<and>
   fst (ivRequest configured (parse_pages page_too_long)
          (playlist_url ''https://iv.example'' ''PL1'' 1) None (replying 200)) =
     Inr (page_too_long 0) \<and>
   message (RateLimited ''https://iv.example'') =
     ''Error calling Invidious API (instance: https://iv.example). Try again later or set different instance.'' \<and>
   message NotFound = ''Video or playlist with this id is unavailable.'' \<and>
   message Forbidden = ''Video or playlist with this id is private.'' \<and>
   message (UpstreamError ''https://iv.example'' 503) =
     ''Error calling Invidious API (instance: https://iv.example): HTTP 503''"
proof -
  have r: "respond (replying code) (playlist_url ''https://iv.example'' ''PL1'' 1)
             (ivRequest_headers configured None) = Inr \<lparr>statusCode = code, data = []\<rparr>"
    for code
    by (simp add: replying_def)
  show ?thesis
    using ivRequest_status_taxonomy [OF r [of 429], of "parse_pages page_too_long"]
      ivRequest_status_taxonomy [OF r [of 404], of "parse_pages page_too_long"]
      ivRequest_status_taxonomy [OF r [of 500], of "parse_pages page_too_long"]
      ivRequest_status_taxonomy [OF r [of 503], of "parse_pages page_too_long"]
      ivRequest_status_taxonomy [OF r [of 200], of "parse_pages page_too_long"]
    by (simp add: playlist_url_def parse_pages_def show_int_503)
qed

subsection \<open>Cache hits\<close>

text \<open>
  C10 fails for a cache whose \<^verbatim>\<open>put\<close> rejects with \<^verbatim>\<open>null\<close> or \<^verbatim>\<open>undefined\<close>: the cache
  returns a media object for the id, no request is sent, \<^verbatim>\<open>CACHE.put\<close> is called with that
  object, and then the handler of line 31 throws on \<^verbatim>\<open>error.stack\<close>, so \<^verbatim>\<open>lookup\<close> fails
  with a \<^verbatim>\<open>TypeError\<close> where the claim says it returns the cached object.
\<close>

theorem lookup_cache_hit_put_rejects_undefined:
  "get_reply broken_cache ''dQw4w9WgXcQ'' ''iv'' = Inr (Some cached_media) \<and>
   put_reply broken_cache cached_media = Some Nullish \<and>
   lookup configured (\<lambda>body. None) ''dQw4w9WgXcQ'' (Some broken_cache) (replying 404) =
     (Inl (TypeError ''Cannot read properties of undefined (reading stack)''),
      Some (broken_cache\<lparr>gets := [(''dQw4w9WgXcQ'', ''iv'')], puts := [cached_media]\<rparr>),
      replying 404)"
  by (simp add: lookup_def lookupInternal_def CACHE_get_def CACHE_put_def
      cache_error_handler_def broken_cache_def)

text \<open>
  What holds of C10: when the cache returns a media object for the id and \<^verbatim>\<open>CACHE.put\<close>
  of that object does not reject with \<^verbatim>\<open>null\<close> or \<^verbatim>\<open>undefined\<close>, \<^verbatim>\<open>lookup\<close> returns that
  object, sends no request (the transport and its log are unchanged) whether or not an
  instance is configured, and has called \<^verbatim>\<open>CACHE.put\<close> with the same object; any other
  failure of that call does not change the result.
\<close>

theorem lookup_cache_hit:
  assumes "get_reply c ident ''iv'' = Inr (Some m)"
    and "put_reply c m \<noteq> Some Nullish"
  shows "lookup cfg parse ident (Some c) n =
           (Inr m, Some (c\<lparr>gets := gets c @ [(ident, ''iv'')], puts := puts c @ [m]\<rparr>), n)"
  using assms
  by (auto simp: lookup_def lookupInternal_def CACHE_get_def CACHE_put_def
      cache_error_handler_def split: option.splits thrown.splits)

theorem lookup_cache_hit_witness:
  "truthy_string (INSTANCE unconfigured) = None \<and>
   put_reply warm_cache cached_media = Some (Thrown ''Error: read-only cache'') \<and>
   lookup unconfigured (\<lambda>body. None) ''dQw4w9WgXcQ'' (Some warm_cache) (replying 404) =
     (Inr cached_media,
      Some (warm_cache\<lparr>gets := [(''dQw4w9WgXcQ'', ''iv'')], puts := [cached_media]\<rparr>),
      replying 404)"
  using lookup_cache_hit [of warm_cache "''dQw4w9WgXcQ''" cached_media unconfigured
      "\<lambda>body. None" "replying 404"]
  by (simp add: warm_cache_def unconfigured_def truthy_string_def)

subsection \<open>The limit\<close>

text \<open>
  C4: when the first page declares more than \<open>PLAYLIST_ITEM_LIMIT\<close> videos,
  \<^verbatim>\<open>lookupPlaylist\<close> fails with \<open>PlaylistTooLong\<close> and the request for page 1 is the only
  request it has sent.
\<close>

theorem lookupPlaylist_too_long_after_one_fetch:
  assumes "truthy_string (INSTANCE cfg) = Some inst"
    and "respond n (playlist_url inst ident 1) (ivRequest_headers cfg None) = Inr r"
    and "statusCode r = 200" and "parse (data r) = Some pg"
    and "videoCount pg > int PLAYLIST_ITEM_LIMIT"
  shows "lookupPlaylist cfg parse ident n =
           Some (Inl PlaylistTooLong,
                 n\<lparr>sent := sent n @ [(playlist_url inst ident 1, ivRequest_headers cfg None)]\<rparr>)"
  using assms by (simp add: lookupPlaylist_def lookupPlaylist_collect_def ivRequest_ok)

theorem lookupPlaylist_too_long_after_one_fetch_witness:
  "videoCount (page_too_long 1) > int PLAYLIST_ITEM_LIMIT \<and>
   lookupPlaylist configured (parse_pages page_too_long) ''PL1'' upstream =
     Some (Inl PlaylistTooLong,
           upstream\<lparr>sent := [(playlist_url ''https://iv.example'' ''PL1'' 1,
                               [(''User-Agent'', ''mediaquery'')])]\<rparr>)"
  using lookupPlaylist_too_long_after_one_fetch [of configured "''https://iv.example''" upstream
      "''PL1''" "\<lparr>statusCode = 200, data = ''x''\<rparr>" "parse_pages page_too_long" "page_too_long 1"]
  by (simp add: configured_def truthy_string_def upstream_def playlist_url_def
      ivRequest_headers_def parse_pages_def page_too_long_def PLAYLIST_ITEM_LIMIT_def)

text \<open>
  C5: when the loop is left with \<open>PLAYLIST_ITEM_LIMIT\<close> or more keys in \<^verbatim>\<open>resultsMap\<close>,
  \<^verbatim>\<open>lookupPlaylist\<close> fails with \<open>PlaylistTooLong\<close>: no list of media objects is returned,
  in particular no truncated one.
\<close>

theorem lookupPlaylist_rejects_at_limit:
  assumes "lookupPlaylist_collect cfg parse ident n = Some (Inr st, n')"
    and "length (Object_keys (resultsMap st)) \<ge> PLAYLIST_ITEM_LIMIT"
  shows "lookupPlaylist cfg parse ident n = Some (Inl PlaylistTooLong, n')"
  using assms collect_length [OF assms(1)]
  by (simp add: lookupPlaylist_def lookupPlaylist_result_def)

theorem lookupPlaylist_rejects_at_limit_witness:
  "length (Object_keys (resultsMap (state_after (pages_numbered 2000 2000) 1))) = 2000 \<and>
   PLAYLIST_ITEM_LIMIT = 2000 \<and>
   lookupPlaylist configured (parse_pages (pages_numbered 2000 2000)) ''PL1'' upstream =
     Some (Inl PlaylistTooLong,
           upstream\<lparr>sent := requests configured ''https://iv.example'' ''PL1'' [1]\<rparr>)"
proof -
  have r: "lookupPlaylist_collect configured (parse_pages (pages_numbered 2000 2000)) ''PL1'' upstream =
     Some (Inr (state_after (pages_numbered 2000 2000) 1),
           upstream\<lparr>sent := requests configured ''https://iv.example'' ''PL1'' [1]\<rparr>)"
    by (rule numbered_run) (simp_all add: PLAYLIST_ITEM_LIMIT_def)
  have l: "length (Object_keys (resultsMap (state_after (pages_numbered 2000 2000) 1))) = 2000"
    by (simp add: state_after_def numbered_size del: accumulated.simps)
  then have "PLAYLIST_ITEM_LIMIT \<le>
        length (Object_keys (resultsMap (state_after (pages_numbered 2000 2000) 1)))"
    by (simp add: PLAYLIST_ITEM_LIMIT_def)
  from lookupPlaylist_rejects_at_limit [OF r this] l show ?thesis
    by (simp add: PLAYLIST_ITEM_LIMIT_def)
qed

text \<open>
  C2 (amended): a page is merged whole, so \<^verbatim>\<open>resultsMap\<close> can grow past the limit. When
  the run reaches page \<open>q\<close>, the number of keys after merging it is at most the limit
  minus one plus the number of videos of page \<open>q\<close>; and when that number is at or above
  the limit, no page after \<open>q\<close> is requested and \<^verbatim>\<open>lookupPlaylist\<close> fails with
  \<open>PlaylistTooLong\<close>.
\<close>

theorem lookupPlaylist_size_bound:
  assumes "truthy_string (INSTANCE cfg) = Some inst"
    and "1 \<le> q"
    and "\<forall>k. 1 \<le> k \<and> k \<le> q \<longrightarrow> serves cfg parse n inst ident pg k"
    and "videoCount (pg 1) \<le> int PLAYLIST_ITEM_LIMIT"
    and "\<forall>k. 1 \<le> k \<and> k < q \<longrightarrow> loop_condition (state_after pg k)"
  shows "lookupPlaylist_collect cfg parse ident n =
           lookupPlaylist_loop cfg parse inst ident (state_after pg q)
             (n\<lparr>sent := sent n @ requests cfg inst ident [1..<Suc q]\<rparr>) \<and>
         resultsLength (state_after pg q) \<le>
           PLAYLIST_ITEM_LIMIT - 1 + length (videos (pg q)) \<and>
         (PLAYLIST_ITEM_LIMIT \<le> resultsLength (state_after pg q) \<longrightarrow>
            lookupPlaylist cfg parse ident n =
              Some (Inl PlaylistTooLong,
                    n\<lparr>sent := sent n @ requests cfg inst ident [1..<Suc q]\<rparr>))"
proof (intro conjI impI)
  show "lookupPlaylist_collect cfg parse ident n =
          lookupPlaylist_loop cfg parse inst ident (state_after pg q)
            (n\<lparr>sent := sent n @ requests cfg inst ident [1..<Suc q]\<rparr>)"
    by (rule collect_reaches [OF assms])
  obtain j where q: "q = Suc j" using assms(2) by (cases q) auto
  have "length (accumulated pg q) \<le> length (accumulated pg (q - 1)) + length (videos (pg q))"
    unfolding q by (simp add: length_merge_videos)
  with size_before [OF assms(2,5)]
  show "resultsLength (state_after pg q) \<le> PLAYLIST_ITEM_LIMIT - 1 + length (videos (pg q))"
    by (simp add: state_after_def length_Object_keys)
  assume full: "PLAYLIST_ITEM_LIMIT \<le> resultsLength (state_after pg q)"
  then have "\<not> loop_condition (state_after pg q)"
    by (simp add: loop_condition_def)
  from collect_run [OF assms this] full
  show "lookupPlaylist cfg parse ident n =
          Some (Inl PlaylistTooLong,
                n\<lparr>sent := sent n @ requests cfg inst ident [1..<Suc q]\<rparr>)"
    by (simp add: lookupPlaylist_def lookupPlaylist_result_def)
qed

theorem lookupPlaylist_size_bound_witness:
  "resultsLength (state_after (pages_numbered 2000 2001) 1) = 2001 \<and>
   length (videos (pages_numbered 2000 2001 1)) = 2001 \<and>
   lookupPlaylist configured (parse_pages (pages_numbered 2000 2001)) ''PL1'' upstream =
     Some (Inl PlaylistTooLong,
           upstream\<lparr>sent := requests configured ''https://iv.example'' ''PL1'' [1]\<rparr>)"
proof -
  have s: "\<forall>k. 1 \<le> k \<and> k \<le> 1 \<longrightarrow>
      serves configured (parse_pages (pages_numbered 2000 2001)) upstream ''https://iv.example''
        ''PL1'' (pages_numbered 2000 2001) k"
    by (simp add: serves_upstream)
  have c: "videoCount (pages_numbered 2000 2001 1) \<le> int PLAYLIST_ITEM_LIMIT"
    by (simp add: pages_numbered_def PLAYLIST_ITEM_LIMIT_def)
  have l: "\<forall>k. 1 \<le> k \<and> k < (1::nat) \<longrightarrow>
             loop_condition (state_after (pages_numbered 2000 2001) k)"
    by simp
  have z: "resultsLength (state_after (pages_numbered 2000 2001) 1) = 2001"
    by (simp add: state_after_def numbered_size del: accumulated.simps)
  have v: "length (videos (pages_numbered 2000 2001 1)) = 2001"
    by (simp add: pages_numbered_def)
  from lookupPlaylist_size_bound [OF configured_instance order_refl s c l]
  have "PLAYLIST_ITEM_LIMIT \<le> resultsLength (state_after (pages_numbered 2000 2001) 1) \<longrightarrow>
          lookupPlaylist configured (parse_pages (pages_numbered 2000 2001)) ''PL1'' upstream =
            Some (Inl PlaylistTooLong,
                  upstream\<lparr>sent := sent upstream @
                     requests configured ''https://iv.example'' ''PL1'' [1..<Suc 1]\<rparr>)"
    by (elim conjE)
  with z v show ?thesis
    by (simp add: PLAYLIST_ITEM_LIMIT_def upstream_def)
qed

text \<open>
  C2 as stated fails: a first page that declares 2000 videos and carries 2001 leaves
  \<^verbatim>\<open>resultsMap\<close> with 2001 keys when the loop is left.
\<close>

theorem lookupPlaylist_size_bound_counterexample:
  "lookupPlaylist_collect configured (parse_pages (pages_numbered 2000 2001)) ''PL1'' upstream =
     Some (Inr (state_after (pages_numbered 2000 2001) 1),
           upstream\<lparr>sent := requests configured ''https://iv.example'' ''PL1'' [1]\<rparr>) \<and>
   length (Object_keys (resultsMap (state_after (pages_numbered 2000 2001) 1))) = 2001 \<and>
   PLAYLIST_ITEM_LIMIT = 2000"
proof -
  have "lookupPlaylist_collect configured (parse_pages (pages_numbered 2000 2001)) ''PL1'' upstream =
     Some (Inr (state_after (pages_numbered 2000 2001) 1),
           upstream\<lparr>sent := requests configured ''https://iv.example'' ''PL1'' [1]\<rparr>)"
    by (rule numbered_run) (simp_all add: PLAYLIST_ITEM_LIMIT_def)
  moreover have "length (Object_keys (resultsMap (state_after (pages_numbered 2000 2001) 1))) = 2001"
    by (simp add: state_after_def numbered_size del: accumulated.simps)
  ultimately show ?thesis by (simp add: PLAYLIST_ITEM_LIMIT_def)
qed

subsection \<open>Termination\<close>

text \<open>
  C1 (amended): when every page carries the same non-empty set of ids (none of them
  \<^verbatim>\<open>__proto__\<close>) and the same \<^verbatim>\<open>videoCount\<close>, \<^verbatim>\<open>lookupPlaylist\<close> returns exactly when
  \<^verbatim>\<open>videoCount\<close> is above the limit, or the number of distinct ids is at least the limit or
  equal to \<^verbatim>\<open>videoCount\<close>, and then page 1 is the only page requested; in every other case
  the loop never ends.
\<close>

theorem lookupPlaylist_same_page_forever:
  assumes "truthy_string (INSTANCE cfg) = Some inst"
    and "\<forall>p\<ge>1. serves cfg parse n inst ident pg p"
    and "\<forall>p\<ge>1. videoId ` set (videos (pg p)) = ids"
    and "ids \<noteq> {}"
    and "''__proto__'' \<notin> ids"
    and "\<forall>p\<ge>1. videoCount (pg p) = c"
  shows "if int PLAYLIST_ITEM_LIMIT < c \<or> PLAYLIST_ITEM_LIMIT \<le> card ids \<or> c = int (card ids)
         then \<exists>out. lookupPlaylist cfg parse ident n =
                  Some (out, n\<lparr>sent := sent n @ requests cfg inst ident [1]\<rparr>)
         else lookupPlaylist cfg parse ident n = None"
proof -
  have keys: "fst ` set (accumulated pg k) = ids" if "1 \<le> k" for k
  proof -
    have "(\<Union>p\<in>{1..k}. videoId ` set (videos (pg p))) = ids"
      using assms(3) that by auto
    then show ?thesis using assms(5) by (simp add: keys_accumulated)
  qed
  have size: "length (Object_keys (accumulated pg k)) = card ids" if "1 \<le> k" for k
    using keys [OF that] by (simp add: size_accumulated)
  have nonempty: "videos (pg k) \<noteq> []" if "1 \<le> k" for k
    using assms(3,4) that by fastforce
  have cond: "loop_condition (state_after pg k) \<longleftrightarrow>
                card ids < PLAYLIST_ITEM_LIMIT \<and> int (card ids) \<noteq> c" if "1 \<le> k" for k
    using size [OF that] nonempty [OF that] assms(6) that
    by (simp add: loop_condition_def state_after_def)
  have s1: "serves cfg parse n inst ident pg 1" using assms(2) by simp
  have c1: "videoCount (pg 1) = c" using assms(6) by simp
  show ?thesis
  proof (cases "int PLAYLIST_ITEM_LIMIT < c")
    case True
    then show ?thesis
      using collect_too_long [OF assms(1) s1] c1 by (simp add: lookupPlaylist_def)
  next
    case False
    show ?thesis
    proof (cases "card ids < PLAYLIST_ITEM_LIMIT \<and> int (card ids) \<noteq> c")
      case True
      have "lookupPlaylist_collect cfg parse ident n = None"
        using assms(1,2) False c1 cond True by (intro collect_diverges [where pg = pg]) auto
      then show ?thesis using True False by (auto simp: lookupPlaylist_def)
    next
      case stop: False
      have "lookupPlaylist_collect cfg parse ident n =
              Some (Inr (state_after pg 1),
                    n\<lparr>sent := sent n @ requests cfg inst ident [1..<Suc 1]\<rparr>)"
        using assms(1) s1 False c1 cond [of 1] stop by (intro collect_run) auto
      then show ?thesis using stop False by (auto simp: lookupPlaylist_def)
    qed
  qed
qed

theorem lookupPlaylist_same_page_forever_witness:
  "videoId ` set (videos (pages_pair 1)) = {''A'', ''B''} \<and>
   videoCount (pages_pair 1) = 2 \<and>
   (\<exists>out. lookupPlaylist configured (parse_pages pages_pair) ''PL1'' upstream =
           Some (out, upstream\<lparr>sent := requests configured ''https://iv.example'' ''PL1'' [1]\<rparr>))"
proof -
  have s: "\<forall>p\<ge>1. serves configured (parse_pages pages_pair) upstream ''https://iv.example''
             ''PL1'' pages_pair p"
    by (simp add: serves_upstream)
  have d: "\<forall>p\<ge>1. videoId ` set (videos (pages_pair p)) = {''A'', ''B''}"
    by (simp add: pages_pair_def video_A_def video_B_def)
  have c: "\<forall>p\<ge>1. videoCount (pages_pair p) = 2" by (simp add: pages_pair_def)
  from lookupPlaylist_same_page_forever [OF configured_instance s d _ _ c]
  have "\<exists>out. lookupPlaylist configured (parse_pages pages_pair) ''PL1'' upstream =
           Some (out, upstream\<lparr>sent := requests configured ''https://iv.example'' ''PL1'' [1]\<rparr>)"
    by (simp add: upstream_def)
  with d c show ?thesis by simp
qed

text \<open>
  C1 as stated fails: every page is \<open>[A, B]\<close> and declares three videos, and the call
  never returns.
\<close>

theorem lookupPlaylist_same_page_forever_counterexample:
  "lookupPlaylist configured (parse_pages pages_repeat) ''PL1'' upstream = None"
proof -
  have "lookupPlaylist_collect configured (parse_pages pages_repeat) ''PL1'' upstream = None"
  proof (rule collect_diverges [where pg = pages_repeat])
    show "truthy_string (INSTANCE configured) = Some ''https://iv.example''"
      by (simp add: configured_def truthy_string_def)
    show "\<forall>k\<ge>1. loop_condition (state_after pages_repeat k)"
      by (simp add: loop_condition_def state_after_def pair_acc length_Object_keys
          pages_repeat_def PLAYLIST_ITEM_LIMIT_def del: accumulated.simps)
  qed (simp_all add: serves_upstream pages_repeat_def PLAYLIST_ITEM_LIMIT_def)
  then show ?thesis by (simp add: lookupPlaylist_def)
qed

text \<open>
  C7 (amended): when page \<open>q\<close> is the first empty page and the loop has gone on until
  then, no page after \<open>q\<close> is requested, and \<^verbatim>\<open>lookupPlaylist\<close> returns the media objects
  of the accumulated videos that have a duration, provided none of these carries an
  \<^verbatim>\<open>error\<close>.
\<close>

theorem lookupPlaylist_empty_page:
  assumes "truthy_string (INSTANCE cfg) = Some inst"
    and "1 \<le> q"
    and "\<forall>k. 1 \<le> k \<and> k \<le> q \<longrightarrow> serves cfg parse n inst ident pg k"
    and "videoCount (pg 1) \<le> int PLAYLIST_ITEM_LIMIT"
    and "\<forall>k. 1 \<le> k \<and> k < q \<longrightarrow> loop_condition (state_after pg k)"
    and "videos (pg q) = []"
    and "\<forall>v\<in>set (Object_values (accumulated pg q)).
           truthy_number (lengthSeconds v) \<longrightarrow> truthy_string (error v) = None"
  shows "lookupPlaylist cfg parse ident n =
           Some (Inr (map media_of
                        (filter (\<lambda>v. truthy_number (lengthSeconds v))
                           (Object_values (accumulated pg q)))),
                 n\<lparr>sent := sent n @ requests cfg inst ident [1..<Suc q]\<rparr>)"
proof -
  obtain j where q: "q = Suc j" using assms(2) by (cases q) auto
  have same: "accumulated pg q = accumulated pg (q - 1)"
    unfolding q using assms(6) by (simp add: q)
  have "length (accumulated pg q) \<le> PLAYLIST_ITEM_LIMIT - 1"
    unfolding same by (rule size_before [OF assms(2,5)])
  then have lt: "resultsLength (state_after pg q) < PLAYLIST_ITEM_LIMIT"
    by (simp add: state_after_def length_Object_keys PLAYLIST_ITEM_LIMIT_def)
  have stop: "\<not> loop_condition (state_after pg q)"
    using assms(6) by (simp add: loop_condition_def state_after_def)
  have "lookupPlaylist_result (state_after pg q) =
          Inr (map media_of
                 (filter (\<lambda>v. truthy_number (lengthSeconds v))
                    (Object_values (resultsMap (state_after pg q)))))"
    using lt assms(7) by (intro result_ok) (simp_all add: state_after_def)
  with collect_run [OF assms(1-5) stop] show ?thesis
    by (simp add: lookupPlaylist_def state_after_def)
qed

theorem lookupPlaylist_empty_page_witness:
  "videos (pages_short 2) = [] \<and>
   resultsLength (state_after pages_short 2) = 2 \<and>
   videoCount (pages_short 2) = 5 \<and>
   lookupPlaylist configured (parse_pages pages_short) ''PL1'' upstream =
     Some (Inr [media_of video_A],
           upstream\<lparr>sent := requests configured ''https://iv.example'' ''PL1'' [1, 2]\<rparr>)"
proof -
  have s: "\<forall>k. 1 \<le> k \<and> k \<le> 2 \<longrightarrow>
      serves configured (parse_pages pages_short) upstream ''https://iv.example'' ''PL1''
        pages_short k"
    by (simp add: serves_upstream)
  have c: "videoCount (pages_short 1) \<le> int PLAYLIST_ITEM_LIMIT"
    by (simp add: pages_short_def PLAYLIST_ITEM_LIMIT_def)
  have l: "\<forall>k. 1 \<le> k \<and> k < 2 \<longrightarrow> loop_condition (state_after pages_short k)"
  proof (intro allI impI)
    fix k :: nat assume "1 \<le> k \<and> k < 2"
    then have "k = Suc 0" by simp
    then show "loop_condition (state_after pages_short k)"
      by (simp add: loop_condition_def state_after_def short_acc length_Object_keys
          pages_short_def PLAYLIST_ITEM_LIMIT_def del: accumulated.simps)
  qed
  have e: "videos (pages_short 2) = []" by (simp add: pages_short_def)
  have m: "\<forall>v\<in>set (Object_values (accumulated pages_short 2)).
             truthy_number (lengthSeconds v) \<longrightarrow> truthy_string (error v) = None"
    unfolding short_values by (simp add: video_A_def video_C_def truthy_string_def)
  have one: "(1::nat) \<le> 2" by simp
  have d: "filter (\<lambda>v. truthy_number (lengthSeconds v)) [video_A, video_C] = [video_A]"
    by (simp add: video_A_def video_C_def truthy_number_def)
  have u: "[1..<Suc 2] = [1, 2::nat]" by (simp add: upt_rec)
  have r: "resultsLength (state_after pages_short 2) = 2"
    by (simp add: state_after_def short_acc length_Object_keys del: accumulated.simps)
  from lookupPlaylist_empty_page [OF configured_instance one s c l e m]
  have "lookupPlaylist configured (parse_pages pages_short) ''PL1'' upstream =
     Some (Inr [media_of video_A],
           upstream\<lparr>sent := requests configured ''https://iv.example'' ''PL1'' [1, 2]\<rparr>)"
    unfolding short_values d u by (simp add: upstream_def)
  with e r show ?thesis by (simp add: pages_short_def)
qed

text \<open>
  C7 as stated fails: page 2 is empty, one video is accumulated and five are declared,
  and the call fails with \<open>InvalidItem\<close> because that video carries an \<^verbatim>\<open>error\<close>.
\<close>

theorem lookupPlaylist_empty_page_counterexample:
  "videos (pages_error 2) = [] \<and>
   resultsLength (state_after pages_error 2) = 1 \<and>
   videoCount (pages_error 2) = 5 \<and>
   lookupPlaylist configured (parse_pages pages_error) ''PL1'' upstream =
     Some (Inl (InvalidItem ''Video contains error: removed''),
           upstream\<lparr>sent := requests configured ''https://iv.example'' ''PL1'' [1, 2]\<rparr>)"
  by (simp add: lookupPlaylist_def error_run error_result)
     (simp add: pages_error_def state_after_def error_acc length_Object_keys
        del: accumulated.simps)

subsection \<open>The items returned\<close>

text \<open>
  C3 (amended): for a playlist whose pages all declare \<open>c\<close> videos, whose distinct ids
  over all pages are \<open>c\<close> in number and fewer than the limit, none of them \<^verbatim>\<open>__proto__\<close>,
  and none of whose videos with a duration carries an \<^verbatim>\<open>error\<close>: \<^verbatim>\<open>lookupPlaylist\<close>
  returns, after some number \<open>q\<close> of pages, the media objects of the accumulated videos
  that have a duration, in the order of \<^verbatim>\<open>Object.keys\<close>; and unless page \<open>q\<close> is empty
  every id of the playlist has been accumulated.
\<close>

theorem lookupPlaylist_complete_playlist:
  assumes "truthy_string (INSTANCE cfg) = Some inst"
    and "\<forall>p\<ge>1. serves cfg parse n inst ident pg p"
    and "\<forall>p\<ge>1. videoCount (pg p) = int c"
    and "finite (\<Union>p\<in>{1..}. videoId ` set (videos (pg p)))"
    and "card (\<Union>p\<in>{1..}. videoId ` set (videos (pg p))) = c"
    and "c < PLAYLIST_ITEM_LIMIT"
    and "''__proto__'' \<notin> (\<Union>p\<in>{1..}. videoId ` set (videos (pg p)))"
    and "\<forall>p\<ge>1. \<forall>v\<in>set (videos (pg p)).
           truthy_number (lengthSeconds v) \<longrightarrow> truthy_string (error v) = None"
  shows "\<exists>q\<ge>1.
           lookupPlaylist cfg parse ident n =
             Some (Inr (map media_of
                          (filter (\<lambda>v. truthy_number (lengthSeconds v))
                             (Object_values (accumulated pg q)))),
                   n\<lparr>sent := sent n @ requests cfg inst ident [1..<Suc q]\<rparr>) \<and>
           (videos (pg q) \<noteq> [] \<longrightarrow>
              fst ` set (accumulated pg q) = (\<Union>p\<in>{1..}. videoId ` set (videos (pg p))))"
proof -
  define ids where "ids = (\<Union>p\<in>{1..}. videoId ` set (videos (pg p)))"
  have fin: "finite ids" and card: "card ids = c" and proto: "''__proto__'' \<notin> ids"
    using assms(4,5,7) by (simp_all add: ids_def)
  have part: "(\<Union>p\<in>{1..k}. videoId ` set (videos (pg p))) \<subseteq> ids" for k
    unfolding ids_def by (rule UN_mono) simp_all
  have sub: "fst ` set (accumulated pg k) \<subseteq> ids" for k
    using part [of k] by (auto simp: keys_accumulated)
  have le: "length (Object_keys (accumulated pg k)) \<le> c" for k
    using card_mono [OF fin sub [of k]] card by (simp add: size_accumulated)
  obtain K0 where K0: "ids \<subseteq> (\<Union>p\<in>{1..K0}. videoId ` set (videos (pg p)))"
    using covered [OF fin, of "\<lambda>p. videoId ` set (videos (pg p))"] unfolding ids_def by blast
  define K where "K = max K0 1"
  have "(\<Union>p\<in>{1..K0}. videoId ` set (videos (pg p))) \<subseteq>
        (\<Union>p\<in>{1..K}. videoId ` set (videos (pg p)))"
    by (rule UN_mono) (simp_all add: K_def)
  with K0 have "ids \<subseteq> (\<Union>p\<in>{1..K}. videoId ` set (videos (pg p)))" by (rule subset_trans)
  with proto have "ids \<subseteq> fst ` set (accumulated pg K)"
    unfolding keys_accumulated by blast
  with sub [of K] have allK: "fst ` set (accumulated pg K) = ids" by (rule subset_antisym)
  have K1: "1 \<le> K" by (simp add: K_def)
  have "length (Object_keys (accumulated pg K)) = c"
    using allK card by (simp add: size_accumulated)
  moreover have "videoCount (pg K) = int c" using assms(3) K1 by simp
  ultimately have stopK: "\<not> loop_condition (state_after pg K)"
    by (simp add: loop_condition_def state_after_def)
  define q where "q = (LEAST k. 1 \<le> k \<and> \<not> loop_condition (state_after pg k))"
  have q: "1 \<le> q \<and> \<not> loop_condition (state_after pg q)"
    unfolding q_def
  proof (rule LeastI [of _ K])
    show "1 \<le> K \<and> \<not> loop_condition (state_after pg K)" using K1 stopK ..
  qed
  have before: "\<forall>k. 1 \<le> k \<and> k < q \<longrightarrow> loop_condition (state_after pg k)"
  proof (intro allI impI)
    fix k assume k: "1 \<le> k \<and> k < q"
    then have "k < (LEAST k. 1 \<le> k \<and> \<not> loop_condition (state_after pg k))"
      by (simp add: q_def)
    from not_less_Least [OF this] k show "loop_condition (state_after pg k)" by simp
  qed
  have srv: "\<forall>k. 1 \<le> k \<and> k \<le> q \<longrightarrow> serves cfg parse n inst ident pg k"
    using assms(2) by simp
  have c1: "videoCount (pg 1) \<le> int PLAYLIST_ITEM_LIMIT"
    using assms(3,6) by simp
  have q1: "1 \<le> q" and stop: "\<not> loop_condition (state_after pg q)" using q by simp_all
  have run: "lookupPlaylist_collect cfg parse ident n =
               Some (Inr (state_after pg q),
                     n\<lparr>sent := sent n @ requests cfg inst ident [1..<Suc q]\<rparr>)"
    by (rule collect_run [OF assms(1) q1 srv c1 before stop])
  have lt: "resultsLength (state_after pg q) < PLAYLIST_ITEM_LIMIT"
    using le [of q] assms(6) by (simp add: state_after_def)
  have maps: "\<forall>v\<in>set (Object_values (resultsMap (state_after pg q))).
                truthy_number (lengthSeconds v) \<longrightarrow> truthy_string (error v) = None"
  proof
    fix v assume "v \<in> set (Object_values (resultsMap (state_after pg q)))"
    then have "v \<in> set (Object_values (accumulated pg q))"
      by (simp add: state_after_def)
    from Object_values_in [OF this] obtain key where "(key, v) \<in> set (accumulated pg q)" ..
    from values_accumulated [OF this] obtain p where "1 \<le> p" "v \<in> set (videos (pg p))"
      by blast
    with assms(8) show "truthy_number (lengthSeconds v) \<longrightarrow> truthy_string (error v) = None"
      by blast
  qed
  have res: "lookupPlaylist cfg parse ident n =
          Some (Inr (map media_of
                       (filter (\<lambda>v. truthy_number (lengthSeconds v))
                          (Object_values (accumulated pg q)))),
                n\<lparr>sent := sent n @ requests cfg inst ident [1..<Suc q]\<rparr>)"
    using result_ok [OF lt maps] run by (simp add: lookupPlaylist_def state_after_def)
  have all: "fst ` set (accumulated pg q) = ids" if "videos (pg q) \<noteq> []"
  proof -
    from stop that lt have "int (length (Object_keys (accumulated pg q))) = videoCount (pg q)"
      by (simp add: loop_condition_def state_after_def)
    with assms(3) q1 have "card (fst ` set (accumulated pg q)) = card ids"
      by (simp add: size_accumulated card)
    then show ?thesis using card_subset_eq [OF fin sub [of q]] by simp
  qed
  show ?thesis
  proof (intro exI [of _ q] conjI impI)
    show "1 \<le> q" by (rule q1)
    show "lookupPlaylist cfg parse ident n =
          Some (Inr (map media_of
                       (filter (\<lambda>v. truthy_number (lengthSeconds v))
                          (Object_values (accumulated pg q)))),
                n\<lparr>sent := sent n @ requests cfg inst ident [1..<Suc q]\<rparr>)"
      by (rule res)
    show "fst ` set (accumulated pg q) = (\<Union>p\<in>{1..}. videoId ` set (videos (pg p)))"
      if "videos (pg q) \<noteq> []"
      using all [OF that] by (simp add: ids_def)
  qed
qed

theorem lookupPlaylist_complete_playlist_witness:
  "card (\<Union>p\<in>{1..}. videoId ` set (videos (pages_scenario p))) = 3 \<and>
   videoCount (pages_scenario 1) = 3 \<and>
   (\<exists>q\<ge>1.
      lookupPlaylist configured (parse_pages pages_scenario) ''PL1'' upstream =
        Some (Inr (map media_of
                     (filter (\<lambda>v. truthy_number (lengthSeconds v))
                        (Object_values (accumulated pages_scenario q)))),
              upstream\<lparr>sent := requests configured ''https://iv.example'' ''PL1'' [1..<Suc q]\<rparr>))"
proof -
  have s: "\<forall>p\<ge>1. serves configured (parse_pages pages_scenario) upstream ''https://iv.example''
             ''PL1'' pages_scenario p"
    by (simp add: serves_upstream)
  have c: "\<forall>p\<ge>1. videoCount (pages_scenario p) = int 3"
    by (simp add: pages_scenario_def)
  have f: "finite (\<Union>p\<in>{1..}. videoId ` set (videos (pages_scenario p)))"
    unfolding scenario_ids by simp
  have k: "card (\<Union>p\<in>{1..}. videoId ` set (videos (pages_scenario p))) = 3"
    unfolding scenario_ids by simp
  have l: "3 < PLAYLIST_ITEM_LIMIT" by (simp add: PLAYLIST_ITEM_LIMIT_def)
  have p: "''__proto__'' \<notin> (\<Union>p\<in>{1..}. videoId ` set (videos (pages_scenario p)))"
    unfolding scenario_ids by simp
  have m: "\<forall>p\<ge>1. \<forall>v\<in>set (videos (pages_scenario p)).
             truthy_number (lengthSeconds v) \<longrightarrow> truthy_string (error v) = None"
    by (simp add: pages_scenario_def video_A_def video_B_def video_C_def truthy_string_def)
  from lookupPlaylist_complete_playlist [OF configured_instance s c f k l p m]
  obtain q where q: "1 \<le> q"
    "lookupPlaylist configured (parse_pages pages_scenario) ''PL1'' upstream =
        Some (Inr (map media_of
                     (filter (\<lambda>v. truthy_number (lengthSeconds v))
                        (Object_values (accumulated pages_scenario q)))),
              upstream\<lparr>sent := sent upstream @
                 requests configured ''https://iv.example'' ''PL1'' [1..<Suc q]\<rparr>)"
    by (elim exE conjE)
  have e: "sent upstream = []" by (simp add: upstream_def)
  have v: "videoCount (pages_scenario 1) = 3" by (simp add: pages_scenario_def)
  from q show ?thesis unfolding e append_Nil using k v by blast
qed

text \<open>
  C3 as stated fails twice: a playlist of one video that carries an \<^verbatim>\<open>error\<close> fails with
  \<open>InvalidItem\<close>, and a playlist of exactly 2000 distinct videos that declares 2000 fails
  with \<open>PlaylistTooLong\<close>.
\<close>

theorem lookupPlaylist_complete_playlist_counterexample:
  "card (\<Union>p\<in>{1..}. videoId ` set (videos (pages_one_error p))) = 1 \<and>
   videoCount (pages_one_error 1) = 1 \<and>
   lookupPlaylist configured (parse_pages pages_one_error) ''PL1'' upstream =
     Some (Inl (InvalidItem ''Video contains error: removed''),
           upstream\<lparr>sent := requests configured ''https://iv.example'' ''PL1'' [1]\<rparr>) \<and>
   distinct (map videoId (videos (pages_numbered 2000 2000 1))) \<and>
   length (videos (pages_numbered 2000 2000 1)) = 2000 \<and>
   videoCount (pages_numbered 2000 2000 1) = 2000 \<and>
   PLAYLIST_ITEM_LIMIT = 2000 \<and>
   lookupPlaylist configured (parse_pages (pages_numbered 2000 2000)) ''PL1'' upstream =
     Some (Inl PlaylistTooLong,
           upstream\<lparr>sent := requests configured ''https://iv.example'' ''PL1'' [1]\<rparr>)"
proof -
  have a: "card (\<Union>p\<in>{1..}. videoId ` set (videos (pages_one_error p))) = 1"
    unfolding one_error_ids by simp
  have b: "lookupPlaylist configured (parse_pages pages_one_error) ''PL1'' upstream =
     Some (Inl (InvalidItem ''Video contains error: removed''),
           upstream\<lparr>sent := requests configured ''https://iv.example'' ''PL1'' [1]\<rparr>)"
    by (simp add: lookupPlaylist_def one_error_run one_error_result [unfolded One_nat_def])
  have c: "distinct (map videoId (videos (pages_numbered 2000 2000 1)))"
    using numbered_distinct [of 2000] by (simp add: pages_numbered_def)
  have d: "length (videos (pages_numbered 2000 2000 1)) = 2000"
    by (simp add: pages_numbered_def)
  have r: "lookupPlaylist_collect configured (parse_pages (pages_numbered 2000 2000)) ''PL1'' upstream =
     Some (Inr (state_after (pages_numbered 2000 2000) 1),
           upstream\<lparr>sent := requests configured ''https://iv.example'' ''PL1'' [1]\<rparr>)"
    by (rule numbered_run) (simp_all add: PLAYLIST_ITEM_LIMIT_def)
  have "lookupPlaylist_result (state_after (pages_numbered 2000 2000) 1) = Inl PlaylistTooLong"
    by (simp add: lookupPlaylist_result_def state_after_def numbered_size PLAYLIST_ITEM_LIMIT_def
        del: accumulated.simps)
  with r have e: "lookupPlaylist configured (parse_pages (pages_numbered 2000 2000)) ''PL1'' upstream =
     Some (Inl PlaylistTooLong,
           upstream\<lparr>sent := requests configured ''https://iv.example'' ''PL1'' [1]\<rparr>)"
    by (simp add: lookupPlaylist_def)
  have f: "videoCount (pages_one_error 1) = 1" "videoCount (pages_numbered 2000 2000 1) = 2000"
    by (simp_all add: pages_one_error_def pages_numbered_def)
  from a b c d e f show ?thesis by (simp add: PLAYLIST_ITEM_LIMIT_def)
qed



subsection \<open>Duplicates\<close>

text \<open>
  C6 fails for the id \<^verbatim>\<open>__proto__\<close>: pages 1 and 2 share the video with this id, and after
  the run \<^verbatim>\<open>resultsMap\<close> has the keys \<open>A\<close> and \<open>B\<close> only; the shared video is there not once
  but never.
\<close>

theorem lookupPlaylist_proto_id_dropped:
  "video_P \<in> set (videos (pages_proto 1)) \<and> video_P \<in> set (videos (pages_proto 2)) \<and>
   videoId video_P = ''__proto__'' \<and>
   lookupPlaylist_collect configured (parse_pages pages_proto) ''PL1'' upstream =
     Some (Inr (state_after pages_proto 3),
           upstream\<lparr>sent := requests configured ''https://iv.example'' ''PL1'' [1, 2, 3]\<rparr>) \<and>
   Object_keys (resultsMap (state_after pages_proto 3)) = [''A'', ''B''] \<and>
   count_list (Object_keys (resultsMap (state_after pages_proto 3))) ''__proto__'' = 0"
proof -
  have k: "Object_keys (resultsMap (state_after pages_proto 3)) = [''A'', ''B'']"
    by (simp add: state_after_def proto_acc Object_keys_def not_index_A del: accumulated.simps)
  have "video_P \<in> set (videos (pages_proto 1))" "video_P \<in> set (videos (pages_proto 2))"
    "videoId video_P = ''__proto__''"
    by (simp_all add: pages_proto_def video_P_def)
  with proto_run k show ?thesis by simp
qed

text \<open>
  What holds of C6: for every id other than \<^verbatim>\<open>__proto__\<close> that occurs on one of the
  pages 1 to \<open>q\<close>, the accumulator after page \<open>q\<close> has exactly one key for it, and the
  value under the key is the last video with this id in the order of the pages: a later
  occurrence overwrites an earlier one.
\<close>

theorem accumulated_one_entry_per_id:
  assumes "v \<in> set (videos (pg i))" and "1 \<le> i" and "i \<le> q"
    and "videoId v \<noteq> ''__proto__''"
  shows "count_list (Object_keys (accumulated pg q)) (videoId v) = 1 \<and>
         js_get (accumulated pg q) (videoId v) =
           find (\<lambda>w. videoId w = videoId v)
             (rev (concat (map (\<lambda>p. videos (pg p)) [1..<Suc q])))"
proof
  have "videoId v \<in> (\<Union>p\<in>{1..q}. videoId ` set (videos (pg p)))"
    using assms(1-3) by auto
  then have "videoId v \<in> set (Object_keys (accumulated pg q))"
    using assms(4) by (simp add: set_Object_keys keys_accumulated)
  then show "count_list (Object_keys (accumulated pg q)) (videoId v) = 1"
    by (intro count_list_distinct distinct_Object_keys distinct_accumulated)
  let ?all = "concat (map (\<lambda>p. videos (pg p)) [1..<Suc q])"
  have "i \<in> set [1..<Suc q]" using assms(2,3) by auto
  with assms(1) have "v \<in> set ?all" by (auto simp del: upt_Suc)
  then have "v \<in> set (rev ?all)" by (simp only: set_rev)
  then have "find (\<lambda>w. videoId w = videoId v) (rev ?all) \<noteq> None"
    unfolding find_None_iff by blast
  then obtain w where w: "find (\<lambda>w. videoId w = videoId v) (rev ?all) = Some w" by blast
  have "js_get (accumulated pg q) (videoId v) = map_of (merge_videos [] ?all) (videoId v)"
    by (simp only: js_get_def accumulated_concat)
  also have "\<dots> = Some w"
    unfolding map_of_merge_videos w using assms(4) by simp
  finally show "js_get (accumulated pg q) (videoId v) =
                  find (\<lambda>w. videoId w = videoId v) (rev ?all)"
    unfolding w .
qed

theorem accumulated_one_entry_per_id_witness:
  "video_B \<in> set (videos (pages_scenario 1)) \<and> video_B \<in> set (videos (pages_scenario 2)) \<and>
   count_list (Object_keys (accumulated pages_scenario 2)) ''B'' = 1 \<and>
   js_get (accumulated pages_scenario 2) ''B'' = Some video_B"
proof -
  have b: "video_B \<in> set (videos (pages_scenario 1))" "video_B \<in> set (videos (pages_scenario 2))"
    by (simp_all add: pages_scenario_def)
  have i: "videoId video_B = ''B''" by (simp add: video_B_def)
  have "(1::nat) \<le> 1" "(1::nat) \<le> 2" "videoId video_B \<noteq> ''__proto__''"
    by (simp_all add: video_B_def)
  from accumulated_one_entry_per_id [of video_B pages_scenario 1 2, OF b(1) this]
  have "count_list (Object_keys (accumulated pages_scenario 2)) ''B'' = 1" unfolding i by simp
  moreover have "js_get (accumulated pages_scenario 2) ''B'' = Some video_B"
    by (simp add: scenario_acc js_get_def)
  ultimately show ?thesis using b by simp
qed

end
